theory Spec2Isabelle
  imports Complex_Main
begin

section \<open>Errors\<close>

text \<open>
  The script raises no exception of its own. The ones the interpreter and the libraries raise
  inside the modelled functions are values of this type: a division by a zero float
  (\<^verbatim>\<open>ZeroDivisionError\<close>) and a negative sample count given to
  \<^verbatim>\<open>np.random.uniform\<close> (\<^verbatim>\<open>ValueError\<close>).
\<close>

datatype py_error = ZeroDivisionError | ValueError

section \<open>The floating-point platform\<close>

text \<open>
  A finite binary64 number is modelled by the real number it denotes. What the platform
  computes is a parameter of the model:
  \<^item> \<open>rnd\<close>: the rounding of an exact result to binary64 (IEEE 754 arithmetic returns the
    rounded exact result of \<open>+\<close>, \<open>-\<close>, \<open>*\<close> and \<open>/\<close>);
  \<^item> \<open>fcos\<close>: the library cosine behind \<^verbatim>\<open>np.cos\<close>;
  \<^item> \<open>pow_1_5\<close>: the library power behind \<^verbatim>\<open>n**1.5\<close>, as a function of the index.

  Every float of a run is finite. The indices are 64-bit integers (\<^verbatim>\<open>np.arange\<close> with
  \<^verbatim>\<open>dtype=int\<close>), whose power is below \<open>2^95\<close>; the power of a Python integer would leave the
  range of binary64 only above \<open>2^682\<close>, an index whose Fibonacci number has more than
  \<open>10^204\<close> digits. The coefficients lie between \<open>-2\<close> and 2 and a cosine between \<open>-1\<close> and 1,
  so a correction is at most \<open>2 * K\<close> in absolute value.
\<close>

record float_env =
  rnd :: "real \<Rightarrow> real"
  fcos :: "real \<Rightarrow> real"
  pow_1_5 :: "int \<Rightarrow> real"

definition fadd :: "float_env \<Rightarrow> real \<Rightarrow> real \<Rightarrow> real" where
  "fadd env a b = rnd env (a + b)"

definition fsub :: "float_env \<Rightarrow> real \<Rightarrow> real \<Rightarrow> real" where
  "fsub env a b = rnd env (a - b)"

definition fmul :: "float_env \<Rightarrow> real \<Rightarrow> real \<Rightarrow> real" where
  "fmul env a b = rnd env (a * b)"

definition fdiv :: "float_env \<Rightarrow> real \<Rightarrow> real \<Rightarrow> real" where
  "fdiv env a b = rnd env (a / b)"

section \<open>Fibonacci numbers\<close>

text \<open>
  \<^verbatim>\<open>fibonacci_sympy(n)\<close> returns \<^verbatim>\<open>sympy.fibonacci(n)\<close>, the exact \<open>n\<close>-th
  Fibonacci number as an unbounded integer (\<open>F 0 = 0\<close>, \<open>F 1 = 1\<close>); for a negative index
  sympy returns \<open>(-1) ^ (n + 1) * F (- n)\<close>. \<open>fib_pair n\<close> is \<open>(F n, F (n + 1))\<close>.
\<close>

fun fib_pair :: "nat \<Rightarrow> int \<times> int" where
  "fib_pair 0 = (0, 1)"
| "fib_pair (Suc n) = (case fib_pair n of (a, b) \<Rightarrow> (b, a + b))"

definition fibonacci_sympy :: "int \<Rightarrow> int" where
  "fibonacci_sympy n =
     (if n < 0 then (if even (n + 1) then 1 else - 1) * fst (fib_pair (nat (- n)))
      else fst (fib_pair (nat n)))"

section \<open>Base values\<close>

text \<open>
  \<^verbatim>\<open>F_n // denominator\<close> divides a sympy integer by a float: sympy converts the float
  to the rational it denotes and returns the floor of the exact quotient
  (\<^verbatim>\<open>ZeroDivisionError\<close> for a zero divisor).
\<close>

definition base_MFM :: "float_env \<Rightarrow> int \<Rightarrow> py_error + int" where
  "base_MFM env n =
     (if n < 1 then Inr 2
      else let F_n = fibonacci_sympy n;
               denominator = pow_1_5 env n
           in if denominator = 0 then Inl ZeroDivisionError
              else Inr (\<lfloor>of_int F_n / denominator\<rfloor> + 2))"

section \<open>A reference platform\<close>

text \<open>
  The theorems below hold for every platform, some under stated assumptions on it. Concrete
  runs use the following one, or the one with the binary64 rounding that is defined after it:
  arithmetic without rounding error, the exact cosine, and for
  \<^verbatim>\<open>n**1.5\<close> the binary64 number nearest to the real \<open>n\<close> to the power \<open>3/2\<close>, that is to the
  square root of \<open>n^3\<close> (ties to the even significand). A library power may return a
  neighbour of the nearest number, which is why \<open>pow_1_5\<close> is a parameter.

  \<open>isqrt\<close> is the integer square root and \<open>bit_length\<close> the number of binary digits
  (Python's \<^verbatim>\<open>int.bit_length\<close>). In
  \<open>float_pow\<close> the square root is scaled by \<open>2^s / 2^t\<close> into the range of a 53-bit
  significand \<open>m\<close>, rounded there, and scaled back (lemma \<open>float_pow_nearest\<close> below).
\<close>

function isqrt :: "int \<Rightarrow> int" where
  "isqrt n =
     (if n < 4 then (if n < 1 then 0 else 1)
      else (let r = 2 * isqrt (n div 4)
            in if (r + 1) * (r + 1) \<le> n then r + 1 else r))"
  by pat_completeness auto
termination
  by (relation "measure nat") auto

function bit_length :: "int \<Rightarrow> nat" where
  "bit_length n = (if n < 1 then 0 else Suc (bit_length (n div 2)))"
  by pat_completeness auto
termination
  by (relation "measure nat") auto

declare isqrt.simps [simp del] bit_length.simps [simp del]

definition float_pow :: "int \<Rightarrow> real" where
  "float_pow n =
     (if n < 1 then 0
      else let a = n ^ 3;
               fl = (bit_length a - 1) div 2;
               s = 52 - fl;
               t = fl - 52;
               r = isqrt (a * 4 ^ s div 4 ^ t);
               lhs = 4 * a * 4 ^ s;
               rhs = (2 * r + 1) ^ 2 * 4 ^ t;
               m = (if rhs < lhs then r + 1
                    else if lhs < rhs then r
                    else if even r then r else r + 1)
           in of_int m * 2 ^ t / 2 ^ s)"

definition reference_env :: float_env where
  "reference_env = \<lparr>rnd = (\<lambda>x. x), fcos = cos, pow_1_5 = float_pow\<rparr>"

section \<open>The correction\<close>

text \<open>
  \<^verbatim>\<open>np.random.uniform(-2, 2, K)\<close> draws from the generator of the process, which the script
  never seeds. The state of the generator is modelled by the sequence of the values it is going
  to return: a call takes the first \<open>K\<close> of them and leaves the rest. A negative \<open>K\<close> raises
  \<^verbatim>\<open>ValueError\<close>.
\<close>

type_synonym rng_state = "nat \<Rightarrow> real"

definition uniform :: "rng_state \<Rightarrow> int \<Rightarrow> py_error + (real list \<times> rng_state)" where
  "uniform g K =
     (if K < 0 then Inl ValueError
      else Inr (map g [0..<nat K], (\<lambda>i. g (i + nat K))))"

text \<open>\<^verbatim>\<open>np.pi\<close> is the binary64 number nearest to \<open>\<pi>\<close>.\<close>

definition np_pi :: real where
  "np_pi = 884279719003555 / 281474976710656"

text \<open>
  \<^verbatim>\<open>np.round\<close> rounds to the nearest integer, a tie to the even one; \<^verbatim>\<open>int\<close> of a float
  drops the fractional part.
\<close>

definition np_round :: "real \<Rightarrow> real" where
  "np_round x =
     (let f = \<lfloor>x\<rfloor>; d = x - of_int f
      in if d < 1 / 2 then of_int f
         else if 1 / 2 < d then of_int (f + 1)
         else if even f then of_int f else of_int (f + 1))"

definition py_int :: "real \<Rightarrow> int" where
  "py_int x = (if 0 \<le> x then \<lfloor>x\<rfloor> else \<lceil>x\<rceil>)"

text \<open>
  The rounding of IEEE 754 arithmetic, to the nearest binary64 number and on a tie to the even
  significand. \<open>normalise\<close> scales a positive number by powers of two until it lies between
  \<open>2^52\<close> and \<open>2^53\<close>, or until the exponent of the subnormal numbers is reached; its first
  argument bounds the number of steps, and 1100 of them cover every binary64 exponent. The
  scaled number is rounded to an integer, the significand, and scaled back. Overflow to
  infinity is not modelled. The platform \<open>binary64_env\<close> is the reference platform with this
  rounding.
\<close>

fun normalise :: "nat \<Rightarrow> real \<Rightarrow> int \<Rightarrow> real \<times> int" where
  "normalise 0 y e = (y, e)"
| "normalise (Suc k) y e =
     (if 2 ^ 53 \<le> y then normalise k (y / 2) (e + 1)
      else if y < 2 ^ 52 \<and> - 1074 < e then normalise k (2 * y) (e - 1)
      else (y, e))"

definition pow2 :: "int \<Rightarrow> real" where
  "pow2 e = (if 0 \<le> e then 2 ^ nat e else 1 / 2 ^ nat (- e))"

definition round_b64 :: "real \<Rightarrow> real" where
  "round_b64 x =
     (if x = 0 then 0
      else case normalise 1100 \<bar>x\<bar> 0 of (y, e) \<Rightarrow> sgn x * np_round y * pow2 e)"

definition binary64_env :: float_env where
  "binary64_env = \<lparr>rnd = round_b64, fcos = cos, pow_1_5 = float_pow\<rparr>"


text \<open>
  The loop \<^verbatim>\<open>for k in range(K)\<close> of \<^verbatim>\<open>correction_fourier\<close>. The division by
  \<^verbatim>\<open>N\<close> is one of a Python float by a Python integer and raises \<^verbatim>\<open>ZeroDivisionError\<close>
  when the array is empty; the array operations work element by element.
\<close>

fun fourier_loop ::
  "float_env \<Rightarrow> nat \<Rightarrow> int list \<Rightarrow> real list \<Rightarrow> nat list \<Rightarrow> real list \<Rightarrow> py_error + real list" where
  "fourier_loop env N n_array coeffs [] corrections = Inr corrections"
| "fourier_loop env N n_array coeffs (k # ks) corrections =
     (if N = 0 then Inl ZeroDivisionError
      else let freq = fdiv env (fmul env (fmul env 2 np_pi) (of_nat k)) (of_nat N);
               terms = map (\<lambda>n. fmul env (coeffs ! k) (fcos env (fmul env freq (of_int n)))) n_array
           in fourier_loop env N n_array coeffs ks (map2 (fadd env) corrections terms))"

definition correction_fourier ::
  "float_env \<Rightarrow> rng_state \<Rightarrow> int list \<Rightarrow> int \<Rightarrow> py_error + (real list \<times> rng_state)" where
  "correction_fourier env g n_array K =
     (let N = length n_array
      in case uniform g K of
           Inl e \<Rightarrow> Inl e
         | Inr (coeffs, g') \<Rightarrow>
             (case fourier_loop env N n_array coeffs [0..<nat K] (replicate N 0) of
                Inl e \<Rightarrow> Inl e
              | Inr corrections \<Rightarrow> Inr (map np_round corrections, g')))"

section \<open>Primality\<close>

text \<open>
  \<^verbatim>\<open>sympy.isprime\<close> decides primality of an integer exactly; it is modelled by trial
  division. \<open>standard_prime\<close> is the usual definition, for comparison.
\<close>

definition sympy_isprime :: "int \<Rightarrow> bool" where
  "sympy_isprime x = (2 \<le> x \<and> (\<forall>d\<in>{2..<x}. \<not> d dvd x))"

definition is_prime_pythonic :: "int \<Rightarrow> bool" where
  "is_prime_pythonic x = (if x < 2 then False else sympy_isprime x)"

definition standard_prime :: "int \<Rightarrow> bool" where
  "standard_prime x = (1 < x \<and> (\<forall>d. 0 < d \<and> d dvd x \<longrightarrow> d = 1 \<or> d = x))"

section \<open>The experiment\<close>

text \<open>
  One record per value of \<open>K\<close>: the tuple \<^verbatim>\<open>(K, prime_count, prime_fraction, elapsed)\<close>.
  The list \<^verbatim>\<open>times\<close> of the script repeats the last component and only feeds a plot.
\<close>

record experiment_result =
  res_K :: int
  res_prime_count :: int
  res_prime_fraction :: real
  res_elapsed :: real

text \<open>
  What a run reads from outside: the state of the random generator and the clock, the
  sequence of the values that successive calls of \<^verbatim>\<open>time.time()\<close> return.
\<close>

record world =
  rng :: rng_state
  clock :: "nat \<Rightarrow> real"

definition time_time :: "world \<Rightarrow> real \<times> world" where
  "time_time w = (clock w 0, w\<lparr>clock := (\<lambda>i. clock w (Suc i))\<rparr>)"

text \<open>Step 1: \<^verbatim>\<open>[base_MFM(n) for n in n_values]\<close>; the first error ends the run.\<close>

fun base_values :: "float_env \<Rightarrow> int list \<Rightarrow> py_error + int list" where
  "base_values env [] = Inr []"
| "base_values env (n # ns) =
     (case base_MFM env n of
        Inl e \<Rightarrow> Inl e
      | Inr b \<Rightarrow> (case base_values env ns of Inl e \<Rightarrow> Inl e | Inr bs \<Rightarrow> Inr (b # bs)))"

text \<open>Steps 1 to 3: the corrected values \<^verbatim>\<open>sequence_vals\<close>.\<close>

definition corrected_values ::
  "float_env \<Rightarrow> rng_state \<Rightarrow> int list \<Rightarrow> int \<Rightarrow> py_error + (int list \<times> rng_state)" where
  "corrected_values env g n_values K =
     (case base_values env n_values of
        Inl e \<Rightarrow> Inl e
      | Inr base_vals \<Rightarrow>
          (case correction_fourier env g n_values K of
             Inl e \<Rightarrow> Inl e
           | Inr (correction_vals, g') \<Rightarrow>
               Inr (map (\<lambda>i. base_vals ! i + py_int (correction_vals ! i)) [0..<length n_values],
                    g')))"

text \<open>The body of the loop over \<^verbatim>\<open>K_VALUES\<close>.\<close>

definition run_K ::
  "float_env \<Rightarrow> world \<Rightarrow> int list \<Rightarrow> int \<Rightarrow> py_error + (experiment_result \<times> world)" where
  "run_K env w n_values K =
     (case time_time w of (start_time, w1) \<Rightarrow>
        (case corrected_values env (rng w1) n_values K of
           Inl e \<Rightarrow> Inl e
         | Inr (sequence_vals, g') \<Rightarrow>
             (let prime_flags = map is_prime_pythonic sequence_vals;
                  prime_count = int (length (filter (\<lambda>b. b) prime_flags))
              in if length sequence_vals = 0 then Inl ZeroDivisionError
                 else (let prime_fraction =
                             fdiv env (of_int prime_count) (of_nat (length sequence_vals))
                       in case time_time (w1\<lparr>rng := g'\<rparr>) of (end_time, w2) \<Rightarrow>
                            Inr (\<lparr>res_K = K, res_prime_count = prime_count,
                                  res_prime_fraction = prime_fraction,
                                  res_elapsed = fsub env end_time start_time\<rparr>, w2)))))"

fun sweep ::
  "float_env \<Rightarrow> int list \<Rightarrow> world \<Rightarrow> experiment_result list \<Rightarrow> int list \<Rightarrow>
     py_error + (experiment_result list \<times> world)" where
  "sweep env n_values w results [] = Inr (results, w)"
| "sweep env n_values w results (K # Ks) =
     (case run_K env w n_values K of
        Inl e \<Rightarrow> Inl e
      | Inr (r, w') \<Rightarrow> sweep env n_values w' (results @ [r]) Ks)"

text \<open>
  \<^verbatim>\<open>main\<close>, with the module constants \<^verbatim>\<open>N_MAX\<close> and \<^verbatim>\<open>K_VALUES\<close> as arguments, up to the
  list \<^verbatim>\<open>results\<close> that the export and the plots then read.
  \<^verbatim>\<open>np.arange(1, N_MAX + 1)\<close> is the list \<open>[1..N_MAX]\<close>, empty when \<open>N_MAX < 1\<close>.
\<close>

definition main :: "float_env \<Rightarrow> world \<Rightarrow> int \<Rightarrow> int list \<Rightarrow> py_error + experiment_result list" where
  "main env w N_MAX K_VALUES =
     (case sweep env [1..N_MAX] w [] K_VALUES of
        Inl e \<Rightarrow> Inl e
      | Inr (results, w') \<Rightarrow> Inr results)"

text \<open>
  The formula of the specification, with the real power: \<open>floor (F n / n powr 1.5) + 2\<close>.
\<close>

definition spec_base_value :: "int \<Rightarrow> int" where
  "spec_base_value n = \<lfloor>of_int (fibonacci_sympy n) / (of_int n powr (3 / 2) :: real)\<rfloor> + 2"

text \<open>
  What the theorem about \<^verbatim>\<open>prime_fraction\<close> assumes of the rounding of the platform, on the
  quotients of a count by a length: 0 is exact, and a normal number up to 1 is rounded with a
  relative error of at most \<open>2^-53\<close>, to a number that is not above 1.
\<close>

definition rounds_unit_interval :: "(real \<Rightarrow> real) \<Rightarrow> bool" where
  "rounds_unit_interval f =
     (f 0 = 0 \<and> (\<forall>x. 1 / 2 ^ 1022 \<le> x \<and> x \<le> 1 \<longrightarrow> \<bar>f x - x\<bar> \<le> x / 2 ^ 53 \<and> f x \<le> 1))"

text \<open>
  The coefficient vector and the corrected values of the run of \<open>K\<close> that a sweep makes after
  the runs of \<open>Ks\<close>: the run starts in the world that the sweep has reached then.
\<close>

definition coefficients_of_run ::
  "float_env \<Rightarrow> int list \<Rightarrow> world \<Rightarrow> int list \<Rightarrow> int \<Rightarrow> py_error + real list" where
  "coefficients_of_run env n_values w Ks K =
     (case sweep env n_values w [] Ks of
        Inl e \<Rightarrow> Inl e
      | Inr (results, w') \<Rightarrow>
          (case uniform (rng w') K of Inl e \<Rightarrow> Inl e | Inr (coeffs, g') \<Rightarrow> Inr coeffs))"

definition corrected_of_run ::
  "float_env \<Rightarrow> int list \<Rightarrow> world \<Rightarrow> int list \<Rightarrow> int \<Rightarrow> py_error + int list" where
  "corrected_of_run env n_values w Ks K =
     (case sweep env n_values w [] Ks of
        Inl e \<Rightarrow> Inl e
      | Inr (results, w') \<Rightarrow>
          (case corrected_values env (rng w') n_values K of
             Inl e \<Rightarrow> Inl e
           | Inr (sequence_vals, g') \<Rightarrow> Inr sequence_vals))"

text \<open>A result without its measured time.\<close>

definition untimed :: "experiment_result \<Rightarrow> int \<times> int \<times> real" where
  "untimed r = (res_K r, res_prime_count r, res_prime_fraction r)"

section \<open>The reference platform, evaluated\<close>

lemma reference_env_simps [simp]:
  "pow_1_5 reference_env = float_pow"
  "rnd reference_env = (\<lambda>x. x)"
  "fcos reference_env = cos"
  by (simp_all add: reference_env_def)

lemma float_pow_1: "float_pow 1 = 1"
  by code_simp

lemma float_pow_4: "float_pow 4 = 8"
  by code_simp

lemma float_pow_10: "float_pow 10 = 8901020307485223 / 2 ^ 48"
  by code_simp

lemma float_pow_12: "float_pow 12 = 5850347528665472 / 2 ^ 47"
  by code_simp

lemma float_pow_94: "float_pow 94 = 8016440877930992 / 2 ^ 43"
  by code_simp

text \<open>The power of the reference platform is positive at every positive index.\<close>

lemma isqrt_pos: "1 \<le> n \<Longrightarrow> 1 \<le> isqrt n"
proof (induction n rule: isqrt.induct)
  case (1 n)
  show ?case
  proof (cases "n < 4")
    case True
    with "1.prems" show ?thesis by (simp add: isqrt.simps[of n])
  next
    case False
    then have "1 \<le> n div 4" by simp
    with "1.IH" False have "1 \<le> isqrt (n div 4)" by simp
    then show ?thesis
      using False by (simp add: isqrt.simps[of n] Let_def)
  qed
qed

lemma bit_length_lower: "1 \<le> a \<Longrightarrow> 2 ^ (bit_length a - 1) \<le> a"
proof (induction a rule: bit_length.induct)
  case (1 a)
  have bl: "bit_length a = Suc (bit_length (a div 2))"
    using "1.prems" by (simp add: bit_length.simps[of a])
  show ?case
  proof (cases "a div 2 < 1")
    case True
    then have "bit_length (a div 2) = 0" by (simp add: bit_length.simps[of "a div 2"])
    with bl "1.prems" show ?thesis by simp
  next
    case False
    then have h: "1 \<le> a div 2" by simp
    with "1.IH" "1.prems" have ih: "2 ^ (bit_length (a div 2) - 1) \<le> a div 2" by simp
    have "bit_length (a div 2) = Suc (bit_length (a div 2) - 1)"
      using h by (simp add: bit_length.simps[of "a div 2"])
    then have "(2::int) ^ bit_length (a div 2) = 2 * 2 ^ (bit_length (a div 2) - 1)"
      by (metis power_Suc)
    also have "\<dots> \<le> 2 * (a div 2)" using ih by simp
    also have "\<dots> \<le> a" by simp
    finally show ?thesis using bl by simp
  qed
qed

lemma float_pow_positive:
  assumes "1 \<le> n"
  shows "0 < float_pow n"
proof -
  define a where "a = n ^ 3"
  define fl where "fl = (bit_length a - 1) div 2"
  define s where "s = 52 - fl"
  define t where "t = fl - 52"
  define r where "r = isqrt (a * 4 ^ s div 4 ^ t)"
  define m where "m = (if (2 * r + 1) ^ 2 * 4 ^ t < 4 * a * 4 ^ s then r + 1
                    else if 4 * a * 4 ^ s < (2 * r + 1) ^ 2 * 4 ^ t then r
                    else if even r then r else r + 1)"
  have a: "1 \<le> a" using assms unfolding a_def by simp
  have "(4::int) ^ t \<le> 4 ^ fl" unfolding t_def by (rule power_increasing) simp_all
  also have "\<dots> = 2 ^ (2 * fl)" by (simp add: power_mult)
  also have "\<dots> \<le> 2 ^ (bit_length a - 1)"
    unfolding fl_def by (rule power_increasing) simp_all
  also have "\<dots> \<le> a" using a by (rule bit_length_lower)
  also have "\<dots> \<le> a * 4 ^ s" using a by (simp add: mult_le_cancel_left1)
  finally have "(4::int) ^ t \<le> a * 4 ^ s" .
  then have "(4::int) ^ t div 4 ^ t \<le> a * 4 ^ s div 4 ^ t"
    by (rule zdiv_mono1) simp
  then have "1 \<le> a * 4 ^ s div 4 ^ t"
    by simp
  then have "1 \<le> r" unfolding r_def by (rule isqrt_pos)
  then have "1 \<le> m" unfolding m_def by simp
  then have "0 < real_of_int m * 2 ^ t / 2 ^ s" by simp
  moreover have "float_pow n = real_of_int m * 2 ^ t / 2 ^ s"
    using assms unfolding float_pow_def Let_def m_def r_def t_def s_def fl_def a_def by simp
  ultimately show ?thesis by simp
qed

text \<open>
  It is a nearest binary64 number of the real power: its significand \<open>m\<close> has 53 bits, and
  it differs from the real power by at most half a unit of the last binary digit.
\<close>

lemma powr_3_2:
  assumes "0 \<le> (x::real)"
  shows "x powr (3 / 2) = x * sqrt x"
proof (cases "x = 0")
  case True
  then show ?thesis by simp
next
  case False
  then have "0 < x" using assms by simp
  have "x powr (3 / 2) = x powr (1 + 1 / 2)" by simp
  also have "\<dots> = x powr 1 * x powr (1 / 2)" by (rule powr_add)
  also have "\<dots> = x * sqrt x" using \<open>0 < x\<close> by (simp add: powr_half_sqrt)
  finally show ?thesis .
qed

lemma isqrt_correct: "0 \<le> n \<Longrightarrow> (isqrt n)\<^sup>2 \<le> n \<and> n < (isqrt n + 1)\<^sup>2"
proof (induction n rule: isqrt.induct)
  case (1 n)
  show ?case
  proof (cases "n < 4")
    case True
    then show ?thesis
      using "1.prems" by (simp add: isqrt.simps[of n])
  next
    case False
    define q where "q = isqrt (n div 4)"
    have "0 \<le> n div 4" using "1.prems" by simp
    with "1.IH" False have ih: "q\<^sup>2 \<le> n div 4" "n div 4 < (q + 1)\<^sup>2"
      unfolding q_def by simp_all
    have d: "4 * (n div 4) \<le> n" "n < 4 * (n div 4) + 4" by simp_all
    have lo: "(2 * q)\<^sup>2 \<le> n"
    proof -
      have "(2 * q)\<^sup>2 = 4 * q\<^sup>2" by simp
      also have "\<dots> \<le> 4 * (n div 4)" using ih(1) by simp
      finally show ?thesis using d(1) by simp
    qed
    have hi: "n < (2 * q + 2)\<^sup>2"
    proof -
      have "n div 4 + 1 \<le> (q + 1)\<^sup>2" using ih(2) by simp
      then have "4 * (n div 4) + 4 \<le> 4 * (q + 1)\<^sup>2" by simp
      also have "\<dots> = (2 * q + 2)\<^sup>2" by (simp add: power2_eq_square algebra_simps)
      finally show ?thesis using d(2) by simp
    qed
    have v: "isqrt n = (if (2 * q + 1) * (2 * q + 1) \<le> n then 2 * q + 1 else 2 * q)"
      using False unfolding q_def by (simp add: isqrt.simps[of n] Let_def)
    show ?thesis
    proof (cases "(2 * q + 1) * (2 * q + 1) \<le> n")
      case True
      then have e1: "isqrt n = 2 * q + 1" using v by simp
      then have e2: "isqrt n + 1 = 2 * q + 2" by simp
      have "(2 * q + 1)\<^sup>2 \<le> n" using True by (simp add: power2_eq_square)
      then show ?thesis unfolding e2 unfolding e1 using hi by (rule conjI)
    next
      case False
      then have e1: "isqrt n = 2 * q" using v by simp
      have "n < (2 * q + 1)\<^sup>2" using False by (simp add: power2_eq_square)
      with lo show ?thesis unfolding e1 by (rule conjI)
    qed
  qed
qed

lemma isqrt_nonneg: "0 \<le> isqrt n"
proof (cases "1 \<le> n")
  case True
  then show ?thesis using isqrt_pos[of n] by simp
next
  case False
  then show ?thesis by (simp add: isqrt.simps[of n])
qed

lemma bit_length_upper: "a < 2 ^ bit_length a"
proof (induction a rule: bit_length.induct)
  case (1 a)
  show ?case
  proof (cases "a < 1")
    case True
    then show ?thesis by (simp add: bit_length.simps[of a])
  next
    case False
    then have bl: "bit_length a = Suc (bit_length (a div 2))"
      by (simp add: bit_length.simps[of a])
    from "1.IH" False have "a div 2 < 2 ^ bit_length (a div 2)" by simp
    then have "a div 2 + 1 \<le> 2 ^ bit_length (a div 2)" by simp
    then have "2 * (a div 2) + 2 \<le> 2 * 2 ^ bit_length (a div 2)" by simp
    moreover have "a < 2 * (a div 2) + 2" by simp
    ultimately show ?thesis using bl by simp
  qed
qed

lemma bit_length_bracket:
  assumes "1 \<le> a"
  shows "4 ^ ((bit_length a - 1) div 2) \<le> a" and "a < 4 ^ ((bit_length a - 1) div 2 + 1)"
proof -
  let ?fl = "(bit_length a - 1) div 2"
  have "(4::int) ^ ?fl = 2 ^ (2 * ?fl)" by (simp add: power_mult)
  also have "\<dots> \<le> 2 ^ (bit_length a - 1)" by (rule power_increasing) simp_all
  also have "\<dots> \<le> a" using assms by (rule bit_length_lower)
  finally show "4 ^ ?fl \<le> a" .
  have "bit_length a \<le> 2 * (?fl + 1)" by arith
  then have "(2::int) ^ bit_length a \<le> 2 ^ (2 * (?fl + 1))" by (rule power_increasing) simp
  also have "\<dots> = 4 ^ (?fl + 1)" by (simp add: power_mult)
  finally show "a < 4 ^ (?fl + 1)" using bit_length_upper[of a] by simp
qed

lemma sqrt_cube:
  assumes "1 \<le> n"
  shows "real_of_int n powr (3 / 2) = sqrt (of_int (n ^ 3))"
proof -
  have n: "0 \<le> real_of_int n" using assms by simp
  have "real_of_int (n ^ 3) = (real_of_int n)\<^sup>2 * real_of_int n"
    by (simp add: power3_eq_cube power2_eq_square)
  then have "sqrt (of_int (n ^ 3)) = sqrt ((real_of_int n)\<^sup>2) * sqrt (real_of_int n)"
    by (simp add: real_sqrt_mult)
  also have "\<dots> = real_of_int n * sqrt (real_of_int n)" using n by simp
  finally show ?thesis using n by (simp add: powr_3_2)
qed

lemma nearest_integer_of_sqrt:
  fixes y :: real and r m :: int and lhs rhs :: int
  assumes y0: "0 \<le> y" and r0: "0 \<le> r"
    and rl: "of_int r \<le> y" and ru: "y < of_int r + 1"
    and m: "m = (if rhs < lhs then r + 1 else if lhs < rhs then r
                 else if even r then r else r + 1)"
    and c1: "rhs < lhs \<longleftrightarrow> (2 * of_int r + 1)\<^sup>2 < (2 * y)\<^sup>2"
    and c2: "lhs < rhs \<longleftrightarrow> (2 * y)\<^sup>2 < (2 * of_int r + 1)\<^sup>2"
  shows "\<bar>of_int m - y\<bar> \<le> 1 / 2"
proof (cases "rhs < lhs")
  case True
  then have "(2 * real_of_int r + 1)\<^sup>2 < (2 * y)\<^sup>2" using c1 by simp
  then have "2 * real_of_int r + 1 < 2 * y"
    by (rule power2_less_imp_less) (use y0 in simp)
  moreover have "m = r + 1" using True m by simp
  ultimately show ?thesis using ru by simp
next
  case False
  show ?thesis
  proof (cases "lhs < rhs")
    case True
    then have "(2 * y)\<^sup>2 < (2 * real_of_int r + 1)\<^sup>2" using c2 by simp
    then have "2 * y < 2 * real_of_int r + 1"
      by (rule power2_less_imp_less) (use r0 in simp)
    moreover have "m = r" using True False m by simp
    ultimately show ?thesis using rl by simp
  next
    case F2: False
    have "(2 * y)\<^sup>2 = (2 * real_of_int r + 1)\<^sup>2"
      using False F2 c1 c2 by linarith
    then have "2 * y = 2 * real_of_int r + 1"
      by (rule power2_eq_imp_eq) (use y0 r0 in simp_all)
    moreover have "m = r \<or> m = r + 1" using m by simp
    ultimately show ?thesis by auto
  qed
qed

lemma float_pow_nearest:
  assumes "1 \<le> n"
  shows "\<exists>(m::int) (s::nat) (t::nat).
           float_pow n = of_int m * 2 ^ t / 2 ^ s
         \<and> 2 ^ 52 \<le> m \<and> m \<le> 2 ^ 53
         \<and> \<bar>float_pow n - of_int n powr (3 / 2)\<bar> \<le> 2 ^ t / 2 ^ s / 2"
proof -
  define a where "a = n ^ 3"
  define fl where "fl = (bit_length a - 1) div 2"
  define s where "s = 52 - fl"
  define t where "t = fl - 52"
  define A where "A = a * 4 ^ s div 4 ^ t"
  define r where "r = isqrt A"
  define lhs where "lhs = 4 * a * 4 ^ s"
  define rhs where "rhs = (2 * r + 1) ^ 2 * 4 ^ t"
  define m where "m = (if rhs < lhs then r + 1 else if lhs < rhs then r
                       else if even r then r else r + 1)"
  define y :: real where "y = sqrt (of_int a) * 2 ^ s / 2 ^ t"
  have fp: "float_pow n = of_int m * 2 ^ t / 2 ^ s"
    using assms
    unfolding float_pow_def Let_def m_def rhs_def lhs_def r_def A_def t_def s_def fl_def a_def
    by simp
  have a1: "1 \<le> a" using assms unfolding a_def by simp
  have y0: "0 \<le> y" using a1 unfolding y_def by simp
  have four: "((2::real) ^ k)\<^sup>2 = 4 ^ k" for k :: nat
    by (simp add: power2_eq_square power_mult_distrib [symmetric])
  have y2: "y\<^sup>2 = of_int a * 4 ^ s / 4 ^ t"
    using a1 unfolding y_def by (simp add: power_divide power_mult_distrib four)
  have st: "fl + s = 52 + t" unfolding s_def t_def by simp
  \<comment> \<open>the integer square root brackets \<open>y\<close>\<close>
  have A0: "0 \<le> A" using a1 unfolding A_def by (simp add: pos_imp_zdiv_nonneg_iff)
  have r2: "r\<^sup>2 \<le> A" "A < (r + 1)\<^sup>2"
    using isqrt_correct[OF A0] unfolding r_def by simp_all
  have r0: "0 \<le> r" unfolding r_def by (rule isqrt_nonneg)
  have "A * 4 ^ t = a * 4 ^ s - a * 4 ^ s mod 4 ^ t"
    unfolding A_def by (simp add: minus_mod_eq_div_mult)
  moreover have "0 \<le> a * 4 ^ s mod 4 ^ t" by simp
  ultimately have "A * 4 ^ t \<le> a * 4 ^ s" by simp
  then have "real_of_int (A * 4 ^ t) \<le> real_of_int (a * 4 ^ s)" by (rule of_int_le_iff[THEN iffD2])
  then have A_lo: "real_of_int A \<le> y\<^sup>2" unfolding y2 by (simp add: pos_le_divide_eq)
  have "a * 4 ^ s < (A + 1) * 4 ^ t"
  proof -
    have "a * 4 ^ s = A * 4 ^ t + a * 4 ^ s mod 4 ^ t"
      unfolding A_def by (simp add: minus_mod_eq_div_mult [symmetric])
    moreover have "a * 4 ^ s mod 4 ^ t < 4 ^ t" by simp
    ultimately have "a * 4 ^ s < A * 4 ^ t + 4 ^ t" by linarith
    then show ?thesis by (simp add: algebra_simps)
  qed
  then have "real_of_int (a * 4 ^ s) < real_of_int ((A + 1) * 4 ^ t)"
    by (rule of_int_less_iff[THEN iffD2])
  then have A_hi: "y\<^sup>2 < real_of_int A + 1" unfolding y2 by (simp add: pos_divide_less_eq)
  have "real_of_int (r\<^sup>2) \<le> real_of_int A"
    using r2(1) by (rule of_int_le_iff[THEN iffD2])
  then have "real_of_int (r\<^sup>2) \<le> y\<^sup>2" using A_lo by (rule order_trans)
  then have "(real_of_int r)\<^sup>2 \<le> y\<^sup>2" by simp
  then have rl: "real_of_int r \<le> y" using y0 by (rule power2_le_imp_le)
  have "A + 1 \<le> (r + 1)\<^sup>2" using r2(2) by simp
  then have "real_of_int (A + 1) \<le> real_of_int ((r + 1)\<^sup>2)" by (rule of_int_le_iff[THEN iffD2])
  moreover have "y\<^sup>2 < real_of_int (A + 1)" using A_hi by simp
  ultimately have "y\<^sup>2 < real_of_int ((r + 1)\<^sup>2)" by (rule less_le_trans[rotated])
  then have "y\<^sup>2 < (real_of_int r + 1)\<^sup>2" by simp
  then have ru: "y < real_of_int r + 1"
    by (rule power2_less_imp_less) (use r0 in simp)
  \<comment> \<open>the comparison of \<open>lhs\<close> and \<open>rhs\<close> is the comparison of \<open>2y\<close> and \<open>2r + 1\<close>\<close>
  have L: "real_of_int lhs = (2 * y)\<^sup>2 * 4 ^ t"
    unfolding lhs_def by (simp add: power_mult_distrib y2)
  have R: "real_of_int rhs = (2 * real_of_int r + 1)\<^sup>2 * 4 ^ t"
    unfolding rhs_def by simp
  have c1: "rhs < lhs \<longleftrightarrow> (2 * of_int r + 1)\<^sup>2 < (2 * y)\<^sup>2"
  proof -
    have "rhs < lhs \<longleftrightarrow> real_of_int rhs < real_of_int lhs" by simp
    then show ?thesis unfolding L R by simp
  qed
  have c2: "lhs < rhs \<longleftrightarrow> (2 * y)\<^sup>2 < (2 * of_int r + 1)\<^sup>2"
  proof -
    have "lhs < rhs \<longleftrightarrow> real_of_int lhs < real_of_int rhs" by simp
    then show ?thesis unfolding L R by simp
  qed
  have near: "\<bar>of_int m - y\<bar> \<le> 1 / 2"
    using y0 r0 rl ru m_def c1 c2 by (rule nearest_integer_of_sqrt)
  \<comment> \<open>the error of the power\<close>
  have sq: "sqrt (of_int a) = y * 2 ^ t / 2 ^ s" unfolding y_def by simp
  have "float_pow n - sqrt (of_int a) = (of_int m - y) * (2 ^ t / 2 ^ s)"
    unfolding fp sq by (simp add: algebra_simps diff_divide_distrib)
  then have "\<bar>float_pow n - sqrt (of_int a)\<bar> = \<bar>of_int m - y\<bar> * (2 ^ t / 2 ^ s)"
    by (simp add: abs_mult)
  also have "\<dots> \<le> 1 / 2 * (2 ^ t / 2 ^ s)"
    using near by (rule mult_right_mono) simp
  finally have err: "\<bar>float_pow n - of_int n powr (3 / 2)\<bar> \<le> 2 ^ t / 2 ^ s / 2"
    unfolding sqrt_cube[OF assms] a_def by simp
  \<comment> \<open>the significand has 53 bits\<close>
  have br: "4 ^ fl \<le> a" "a < 4 ^ (fl + 1)"
    using bit_length_bracket[OF a1] unfolding fl_def by simp_all
  have "(4::int) ^ 52 * 4 ^ t = 4 ^ fl * 4 ^ s"
    using st by (metis power_add add.commute)
  also have "\<dots> \<le> a * 4 ^ s" using br(1) by simp
  finally have "real_of_int (4 ^ 52 * 4 ^ t) \<le> real_of_int (a * 4 ^ s)"
    by (rule of_int_le_iff[THEN iffD2])
  then have "(4::real) ^ 52 \<le> y\<^sup>2" unfolding y2 by (simp add: pos_le_divide_eq)
  then have "((2::real) ^ 52)\<^sup>2 \<le> y\<^sup>2" unfolding four .
  then have ylo: "2 ^ 52 \<le> y" using y0 by (rule power2_le_imp_le)
  have "a * 4 ^ s < 4 ^ (fl + 1) * 4 ^ s" using br(2) by simp
  also have "\<dots> = 4 ^ 53 * 4 ^ t"
  proof -
    have "fl + 1 + s = 53 + t" using st by simp
    then show ?thesis by (metis power_add)
  qed
  finally have "real_of_int (a * 4 ^ s) < real_of_int (4 ^ 53 * 4 ^ t)"
    by (rule of_int_less_iff[THEN iffD2])
  then have "y\<^sup>2 < (4::real) ^ 53" unfolding y2 by (simp add: pos_divide_less_eq)
  then have "y\<^sup>2 < ((2::real) ^ 53)\<^sup>2" unfolding four .
  then have yhi: "y < 2 ^ 53" by (rule power2_less_imp_less) simp
  have m_near: "y - 1 / 2 \<le> real_of_int m" "real_of_int m \<le> y + 1 / 2"
    using near by linarith+
  have "(4503599627370495::real) < real_of_int m" using m_near(1) ylo by simp
  then have "4503599627370495 < m" by simp
  then have mlo: "2 ^ 52 \<le> m" by simp
  have "real_of_int m < (9007199254740993::real)" using m_near(2) yhi by simp
  then have "m < 9007199254740993" by simp
  then have mhi: "m \<le> 2 ^ 53" by simp
  from fp mlo mhi err show ?thesis by blast
qed

subsection \<open>The binary64 rounding\<close>

lemma binary64_env_simps [simp]:
  "pow_1_5 binary64_env = float_pow"
  "rnd binary64_env = round_b64"
  "fcos binary64_env = cos"
  by (simp_all add: binary64_env_def)

lemma np_round_cases: "np_round y = of_int \<lfloor>y\<rfloor> \<or> np_round y = of_int (\<lfloor>y\<rfloor> + 1)"
  by (simp add: np_round_def Let_def)

lemma np_round_near: "\<bar>np_round y - y\<bar> \<le> 1 / 2"
proof -
  define f where "f = \<lfloor>y\<rfloor>"
  define d where "d = y - of_int f"
  have d: "0 \<le> d" "d < 1" unfolding d_def f_def by linarith+
  have lo: "d \<le> 1 / 2 \<Longrightarrow> \<bar>real_of_int f - y\<bar> \<le> 1 / 2"
    using d unfolding d_def by linarith
  have hi: "1 / 2 \<le> d \<Longrightarrow> \<bar>real_of_int (f + 1) - y\<bar> \<le> 1 / 2"
    using d unfolding d_def by simp
  consider "d < 1 / 2" | "1 / 2 < d" | "d = 1 / 2" by linarith
  then show ?thesis
  proof cases
    case 1
    then have "np_round y = of_int f"
      unfolding np_round_def Let_def f_def[symmetric] d_def[symmetric] by simp
    then show ?thesis using lo 1 by simp
  next
    case 2
    then have "np_round y = of_int (f + 1)"
      unfolding np_round_def Let_def f_def[symmetric] d_def[symmetric] by simp
    then show ?thesis using hi 2 by simp
  next
    case 3
    then have "np_round y = of_int f \<or> np_round y = of_int (f + 1)"
      unfolding np_round_def Let_def f_def[symmetric] d_def[symmetric] by simp
    then show ?thesis using lo hi 3 by fastforce
  qed
qed

lemma np_round_le:
  assumes "y \<le> of_int n"
  shows "np_round y \<le> of_int n"
proof (cases "y = of_int n")
  case True
  then show ?thesis by (simp add: np_round_def)
next
  case False
  then have "y < of_int n" using assms by simp
  then have "\<lfloor>y\<rfloor> < n" by (simp add: floor_less_iff)
  then have "real_of_int \<lfloor>y\<rfloor> \<le> of_int n" "real_of_int (\<lfloor>y\<rfloor> + 1) \<le> of_int n"
    by simp_all
  then show ?thesis using np_round_cases[of y] by auto
qed

lemma np_round_nonneg: "0 \<le> y \<Longrightarrow> 0 \<le> np_round y"
proof -
  assume "0 \<le> y"
  then have "0 \<le> \<lfloor>y\<rfloor>" by simp
  then have "0 \<le> real_of_int \<lfloor>y\<rfloor>" "0 \<le> real_of_int (\<lfloor>y\<rfloor> + 1)" by simp_all
  then show ?thesis using np_round_cases[of y] by auto
qed

lemma normalise_doubling:
  "0 < y \<Longrightarrow> 2 ^ 52 \<le> y * 2 ^ j \<Longrightarrow> y * 2 ^ j < 2 ^ 53 \<Longrightarrow> j \<le> k
     \<Longrightarrow> - 1074 \<le> e - int j \<Longrightarrow> normalise k y e = (y * 2 ^ j, e - int j)"
proof (induction j arbitrary: k y e)
  case 0
  then show ?case by (cases k) simp_all
next
  case (Suc j)
  obtain k' where k: "k = Suc k'" using Suc.prems(4) by (cases k) simp_all
  have "y * 2 * 1 \<le> y * 2 * 2 ^ j"
    by (rule mult_left_mono) (use Suc.prems(1) in simp_all)
  moreover have "y * 2 * 2 ^ j < 2 ^ 53" using Suc.prems(3) by (simp add: mult.assoc)
  ultimately have "y * 2 < 2 ^ 53" by simp
  then have small: "y < 2 ^ 52" by simp
  have e: "- 1074 < e" using Suc.prems(5) by simp
  have "normalise k' (2 * y) (e - 1) = (2 * y * 2 ^ j, e - 1 - int j)"
    by (rule Suc.IH) (use Suc.prems k in \<open>simp_all add: mult.assoc mult.left_commute\<close>)
  then show ?case using small e k by (simp add: mult.assoc mult.left_commute)
qed

text \<open>
  A number between \<open>2^-1022\<close> and 1 is scaled by a power \<open>2^j\<close> into the range of the
  significand; the rounding error is at most half a unit of the last digit, which is at most
  \<open>2^-53\<close> of the number.
\<close>

lemma unit_exponent:
  fixes x :: real
  assumes "1 / 2 ^ 1022 \<le> x" and "x \<le> 1"
  obtains j :: nat where "j \<le> 1074" and "2 ^ 52 \<le> x * 2 ^ j" and "x * 2 ^ j < 2 ^ 53"
proof -
  define j where "j = (LEAST j. 2 ^ 52 \<le> x * 2 ^ j)"
  have "(2::real) ^ 52 = 1 / 2 ^ 1022 * 2 ^ 1074" by simp
  also have "\<dots> \<le> x * 2 ^ 1074" using assms(1) by (rule mult_right_mono) simp
  finally have top: "2 ^ 52 \<le> x * 2 ^ 1074" .
  then have j: "2 ^ 52 \<le> x * 2 ^ j" unfolding j_def by (rule LeastI)
  have le: "j \<le> 1074" unfolding j_def using top by (rule Least_le)
  have "j \<noteq> 0"
  proof
    assume "j = 0"
    with j have "2 ^ 52 \<le> x" by simp
    with assms(2) show False by simp
  qed
  then obtain j' where j': "j = Suc j'" by (cases j) simp_all
  have "\<not> 2 ^ 52 \<le> x * 2 ^ j'"
    using not_less_Least[of j' "\<lambda>j. 2 ^ 52 \<le> x * 2 ^ j"] j' unfolding j_def by simp
  then have "x * 2 ^ j' < 2 ^ 52" by simp
  then have "x * 2 ^ j < 2 ^ 53" unfolding j' by simp
  with le j that show ?thesis by simp
qed

lemma round_b64_unit:
  assumes "1 / 2 ^ 1022 \<le> x" and "x \<le> 1"
  shows "\<bar>round_b64 x - x\<bar> \<le> x / 2 ^ 53" and "round_b64 x \<le> 1"
proof -
  have x0: "0 < x"
  proof -
    have "(0::real) < 1 / 2 ^ 1022" by simp
    then show ?thesis using assms(1) by (rule less_le_trans)
  qed
  obtain j :: nat where j: "j \<le> 1074" "2 ^ 52 \<le> x * 2 ^ j" "x * 2 ^ j < 2 ^ 53"
    using assms by (rule unit_exponent)
  define y where "y = x * 2 ^ j"
  have "normalise 1100 x 0 = (x * 2 ^ j, 0 - int j)"
    by (rule normalise_doubling) (use x0 j in simp_all)
  then have n: "normalise 1100 x 0 = (y, - int j)"
    unfolding y_def by simp
  have p: "pow2 (- int j) = 1 / 2 ^ j"
    by (cases "j = 0") (simp_all add: pow2_def)
  have r: "round_b64 x = np_round y / 2 ^ j"
    using x0 by (simp add: round_b64_def n p)
  have xy: "x = y / 2 ^ j" unfolding y_def by simp
  have "np_round y / 2 ^ j - y / 2 ^ j = (np_round y - y) / 2 ^ j"
    by (simp add: diff_divide_distrib)
  then have "round_b64 x - x = (np_round y - y) / 2 ^ j"
    unfolding r y_def by simp
  then have "\<bar>round_b64 x - x\<bar> = \<bar>np_round y - y\<bar> / 2 ^ j"
    by (simp add: abs_divide)
  also have "\<dots> \<le> (1 / 2) / 2 ^ j"
    using np_round_near[of y] by (rule divide_right_mono) simp
  also have "\<dots> \<le> x / 2 ^ 53"
  proof -
    have "(2::real) ^ 52 \<le> x * 2 ^ j" by (rule j(2))
    then have "1 / 2 ^ j \<le> x / 2 ^ 52"
      by (simp add: field_simps)
    then show ?thesis by simp
  qed
  finally show "\<bar>round_b64 x - x\<bar> \<le> x / 2 ^ 53" .
  have "y \<le> 1 * 2 ^ j" unfolding y_def using assms(2) by (rule mult_right_mono) simp
  then have "y \<le> real_of_int (2 ^ j)" by simp
  then have "np_round y \<le> real_of_int (2 ^ j)" by (rule np_round_le)
  then show "round_b64 x \<le> 1" unfolding r by (simp add: divide_le_eq)
qed

lemma round_b64_rounds_unit_interval: "rounds_unit_interval round_b64"
  unfolding rounds_unit_interval_def
proof (intro conjI allI impI)
  show "round_b64 0 = 0" by (simp add: round_b64_def)
next
  fix x :: real assume a: "1 / 2 ^ 1022 \<le> x \<and> x \<le> 1"
  from a[THEN conjunct1] a[THEN conjunct2]
  show "\<bar>round_b64 x - x\<bar> \<le> x / 2 ^ 53" by (rule round_b64_unit(1))
next
  fix x :: real assume a: "1 / 2 ^ 1022 \<le> x \<and> x \<le> 1"
  from a[THEN conjunct1] a[THEN conjunct2]
  show "round_b64 x \<le> 1" by (rule round_b64_unit(2))
qed

lemma round_b64_11_12: "round_b64 (11 / 12) = 8256599316845909 / 9007199254740992"
  by code_simp

lemma round_b64_1: "round_b64 1 = 1"
  by code_simp

lemma reference_env_assumptions:
  "rounds_unit_interval (rnd reference_env)" "1 \<le> n \<Longrightarrow> 0 < pow_1_5 reference_env n"
  by (simp_all add: rounds_unit_interval_def float_pow_positive)

section \<open>Fibonacci numbers\<close>

lemma fib_pair_bounds: "0 \<le> fst (fib_pair k) \<and> 0 < snd (fib_pair k)"
  by (induction k) (auto split: prod.splits)

lemma fib_pair_rec: "fst (fib_pair (Suc (Suc k))) = fst (fib_pair (Suc k)) + fst (fib_pair k)"
  by (simp split: prod.splits)

lemma fibonacci_sympy_nonneg: "0 \<le> n \<Longrightarrow> 0 \<le> fibonacci_sympy n"
  by (simp add: fibonacci_sympy_def fib_pair_bounds)

text \<open>The model is the sequence of the specification: \<open>F 1 = 1\<close>, \<open>F 2 = 1\<close>, \<open>F n = F (n - 1) + F (n - 2)\<close>.\<close>

lemma fibonacci_sympy_start:
  "fibonacci_sympy 0 = 0" "fibonacci_sympy 1 = 1" "fibonacci_sympy 2 = 1"
  by (simp_all add: fibonacci_sympy_def numeral_2_eq_2)

lemma fibonacci_sympy_rec:
  assumes "2 \<le> n"
  shows "fibonacci_sympy n = fibonacci_sympy (n - 1) + fibonacci_sympy (n - 2)"
proof -
  define k where "k = nat n - 2"
  have k: "nat n = Suc (Suc k)" "nat (n - 1) = Suc k" "nat (n - 2) = k"
    using assms unfolding k_def by linarith+
  show ?thesis
    using assms k by (simp add: fibonacci_sympy_def fib_pair_rec del: fib_pair.simps)
qed

lemma fibonacci_sympy_10: "fibonacci_sympy 10 = 55"
  by code_simp

lemma fibonacci_sympy_94: "fibonacci_sympy 94 = 19740274219868223167"
  by code_simp

section \<open>Properties of the base values\<close>

lemma base_MFM_value:
  assumes "1 \<le> n" and "0 < pow_1_5 env n"
  shows "base_MFM env n = Inr (\<lfloor>of_int (fibonacci_sympy n) / pow_1_5 env n\<rfloor> + 2)"
  using assms by (simp add: base_MFM_def)

text \<open>
  C9. For every integer \<open>n < 1\<close> the base value is the fallback constant 2, returned as a value:
  no error is raised, whatever the floating-point platform.
\<close>

theorem base_MFM_fallback:
  "n < 1 \<Longrightarrow> base_MFM env n = Inr 2"
  by (simp add: base_MFM_def)

theorem base_MFM_fallback_witness:
  "(- 3 :: int) < 1 \<and> base_MFM reference_env (- 3) = Inr 2"
  using base_MFM_fallback[of "- 3" reference_env] by simp

text \<open>
  C10. Every base value is at least 2, for every integer index, the fallback included: a
  Fibonacci number of a positive index is not negative, so the floor of its quotient by the
  power is not negative either. The float power of a positive index is assumed positive.
\<close>

theorem base_MFM_ge_2:
  "(1 \<le> n \<Longrightarrow> 0 < pow_1_5 env n) \<Longrightarrow> \<exists>v. base_MFM env n = Inr v \<and> 2 \<le> v"
proof (cases "n < 1")
  case True
  then show ?thesis by (simp add: base_MFM_def)
next
  case False
  assume "1 \<le> n \<Longrightarrow> 0 < pow_1_5 env n"
  with False have d: "0 < pow_1_5 env n" by simp
  have "0 \<le> fibonacci_sympy n"
    using False by (simp add: fibonacci_sympy_nonneg)
  then have "0 \<le> real_of_int (fibonacci_sympy n) / pow_1_5 env n"
    using d by simp
  then have "0 \<le> \<lfloor>real_of_int (fibonacci_sympy n) / pow_1_5 env n\<rfloor>"
    by simp
  then show ?thesis
    using False d by (simp add: base_MFM_value)
qed

theorem base_MFM_ge_2_witness:
  "0 < pow_1_5 reference_env 12 \<and> (\<exists>v. base_MFM reference_env 12 = Inr v \<and> 2 \<le> v)"
proof -
  have d: "0 < pow_1_5 reference_env 12" by (simp add: float_pow_12)
  from base_MFM_ge_2[of 12 reference_env] d show ?thesis by simp
qed

text \<open>
  C8. The base values of the indices 1 and 10 are both 3: \<open>F 1 = 1\<close> divided by 1, and \<open>F 10 = 55\<close>
  divided by about 31.62, whose floor is 1. It is enough that the float power is exact at 1
  and lies between 31 and 32 at 10.
\<close>

theorem base_MFM_1_and_10:
  assumes "pow_1_5 env 1 = 1" and "31 \<le> pow_1_5 env 10" and "pow_1_5 env 10 \<le> 32"
  shows "base_MFM env 1 = Inr 3 \<and> base_MFM env 10 = Inr 3"
proof -
  have one: "base_MFM env 1 = Inr 3"
    using assms(1) by (simp add: base_MFM_def fibonacci_sympy_def)
  let ?d = "pow_1_5 env 10"
  have d: "0 < ?d" using assms(2) by linarith
  have "1 \<le> 55 / ?d" "55 / ?d < 2"
    using assms(2,3) d by (simp_all add: field_simps)
  then have "\<lfloor>55 / ?d\<rfloor> = 1"
    by (intro floor_unique) simp_all
  then have "base_MFM env 10 = Inr 3"
    using d by (simp add: base_MFM_value fibonacci_sympy_10)
  with one show ?thesis by simp
qed

theorem base_MFM_1_and_10_witness:
  "pow_1_5 reference_env 1 = 1 \<and> 31 \<le> pow_1_5 reference_env 10 \<and> pow_1_5 reference_env 10 \<le> 32
     \<and> base_MFM reference_env 1 = Inr 3 \<and> base_MFM reference_env 10 = Inr 3"
proof -
  have h1: "pow_1_5 reference_env 1 = 1" by (simp add: float_pow_1)
  have h2: "31 \<le> pow_1_5 reference_env 10" by (simp add: float_pow_10)
  have h3: "pow_1_5 reference_env 10 \<le> 32" by (simp add: float_pow_10)
  from base_MFM_1_and_10[OF h1 h2 h3] h1 h2 h3 show ?thesis by simp
qed

subsection \<open>The base value and the real power\<close>

lemma base_MFM_reference_94: "base_MFM reference_env 94 = Inr 21660147061007251"
  by (simp add: base_MFM_def float_pow_94 fibonacci_sympy_94)

lemma spec_base_value_94: "spec_base_value 94 = 21660147061007250"
proof -
  let ?F = "19740274219868223167 :: real"
  let ?Q = "21660147061007248 :: real"
  have s: "(94::real) powr (3 / 2) = 94 * sqrt 94" by (simp add: powr_3_2)
  have lo: "?F / (94 * (?Q + 1)) < sqrt 94"
    by (rule real_less_rsqrt) (simp add: power2_eq_square)
  have hi: "sqrt 94 \<le> ?F / (94 * ?Q)"
    by (rule real_le_lsqrt) (simp_all add: power2_eq_square)
  have "?Q \<le> ?F / (94 * sqrt 94)"
    using hi by (simp add: field_simps)
  moreover have "?F / (94 * sqrt 94) < ?Q + 1"
    using lo by (simp add: field_simps)
  ultimately have "\<lfloor>?F / (94 * sqrt 94)\<rfloor> = 21660147061007248"
    by (intro floor_unique) simp_all
  then show ?thesis
    by (simp add: spec_base_value_def fibonacci_sympy_94 s)
qed

text \<open>
  C1, as stated, fails at the index 94: the nearest binary64 number to \<open>94 powr 1.5\<close> is
  \<open>8016440877930992 / 2^43\<close>, a little below the real power, and the exact floor of the
  quotient of \<open>F 94\<close> by it is one more than the floor of the quotient by the real power.
\<close>

theorem base_MFM_not_real_floor_94:
  "base_MFM reference_env 94 \<noteq> Inr (spec_base_value 94)"
  by (simp add: base_MFM_reference_94 spec_base_value_94)

text \<open>
  The difference at 94 does not depend on how the library rounds: the binary64 numbers from
  512 on are multiples of \<open>1 / 2^43\<close>, and no positive multiple of \<open>1 / 2^43\<close> as the
  power gives the floor of the real quotient.
\<close>

lemma no_binary64_power_exact_94:
  assumes "pow_1_5 env 94 = of_int m / 2 ^ 43" and "0 < m"
  shows "base_MFM env 94 \<noteq> Inr (spec_base_value 94)"
proof -
  let ?F = "19740274219868223167 :: real"
  have d: "0 < pow_1_5 env 94" using assms by simp
  have "base_MFM env 94 = Inr (\<lfloor>?F / pow_1_5 env 94\<rfloor> + 2)"
    using d by (simp add: base_MFM_value fibonacci_sympy_94)
  then have v: "base_MFM env 94 = Inr (\<lfloor>?F / (of_int m / 2 ^ 43)\<rfloor> + 2)"
    unfolding assms(1) .
  have "\<lfloor>?F / (of_int m / 2 ^ 43)\<rfloor> \<noteq> 21660147061007248"
  proof (cases "m \<le> 8016440877930992")
    case True
    then have "real_of_int m \<le> 8016440877930992" by linarith
    then have "21660147061007249 * real_of_int m \<le> ?F * 2 ^ 43"
      by simp
    then have "21660147061007249 \<le> ?F / (of_int m / 2 ^ 43)"
      using assms(2) by (simp add: field_simps)
    then have "21660147061007249 \<le> \<lfloor>?F / (of_int m / 2 ^ 43)\<rfloor>"
      by (simp add: le_floor_iff)
    then show ?thesis by linarith
  next
    case False
    then have "8016440877930993 \<le> real_of_int m" by linarith
    then have "?F * 2 ^ 43 < 21660147061007247 * real_of_int m"
      by simp
    then have "?F / (of_int m / 2 ^ 43) < 21660147061007247"
      using assms(2) by (simp add: field_simps)
    then have "\<lfloor>?F / (of_int m / 2 ^ 43)\<rfloor> < 21660147061007247"
      by (simp add: floor_less_iff)
    then show ?thesis by linarith
  qed
  then show ?thesis
    by (simp add: v spec_base_value_94)
qed

text \<open>
  C1, amended. For every index \<open>n \<ge> 1\<close> the base value is \<open>q + 2\<close>, where \<open>q\<close> is the floor,
  toward minus infinity, of the exact quotient of the Fibonacci number, at its full precision,
  by the binary64 value \<open>d\<close> of \<^verbatim>\<open>n**1.5\<close>: \<open>q * d \<le> F n < (q + 1) * d\<close>. It is the value of the
  formula with the real power whenever \<open>d\<close> is that power exactly.
\<close>

theorem base_MFM_exact_floor:
  assumes "1 \<le> n" and "0 < pow_1_5 env n"
  shows "\<exists>q. base_MFM env n = Inr (q + 2)
           \<and> of_int q * pow_1_5 env n \<le> of_int (fibonacci_sympy n)
           \<and> of_int (fibonacci_sympy n) < (of_int q + 1) * pow_1_5 env n
           \<and> (pow_1_5 env n = of_int n powr (3 / 2)
                \<longrightarrow> base_MFM env n = Inr (spec_base_value n))"
proof -
  let ?d = "pow_1_5 env n"
  let ?q = "\<lfloor>of_int (fibonacci_sympy n) / ?d\<rfloor>"
  have v: "base_MFM env n = Inr (?q + 2)"
    using assms by (rule base_MFM_value)
  have "of_int ?q \<le> of_int (fibonacci_sympy n) / ?d"
    by (rule of_int_floor_le)
  then have lo: "of_int ?q * ?d \<le> of_int (fibonacci_sympy n)"
    using assms(2) by (subst (asm) pos_le_divide_eq)
  have "of_int (fibonacci_sympy n) / ?d < of_int ?q + 1"
    by linarith
  then have hi: "of_int (fibonacci_sympy n) < (of_int ?q + 1) * ?d"
    using assms(2) by (subst (asm) pos_divide_less_eq)
  have "?d = of_int n powr (3 / 2) \<longrightarrow> base_MFM env n = Inr (spec_base_value n)"
    by (simp add: v spec_base_value_def)
  with v lo hi show ?thesis by blast
qed

theorem base_MFM_exact_floor_witness:
  "(1::int) \<le> 4 \<and> 0 < pow_1_5 reference_env 4
     \<and> base_MFM reference_env 4 = Inr (spec_base_value 4)"
proof -
  have p: "pow_1_5 reference_env 4 = 8" by (simp add: float_pow_4)
  have e: "pow_1_5 reference_env 4 = of_int 4 powr (3 / 2)" by (simp add: float_pow_4 powr_3_2)
  from base_MFM_exact_floor[of 4 reference_env] p e show ?thesis by auto
qed

section \<open>Properties of the primality test\<close>

lemma is_prime_pythonic_standard: "is_prime_pythonic x = standard_prime x"
proof (cases "x < 2")
  case True
  then show ?thesis by (simp add: is_prime_pythonic_def standard_prime_def)
next
  case False
  have "(\<forall>d\<in>{2..<x}. \<not> d dvd x) = (\<forall>d. 0 < d \<and> d dvd x \<longrightarrow> d = 1 \<or> d = x)"
  proof
    assume a: "\<forall>d\<in>{2..<x}. \<not> d dvd x"
    show "\<forall>d. 0 < d \<and> d dvd x \<longrightarrow> d = 1 \<or> d = x"
    proof (intro allI impI)
      fix d assume d: "0 < d \<and> d dvd x"
      then have "d \<le> x" using False by (simp add: zdvd_imp_le)
      with a d show "d = 1 \<or> d = x"
        by (cases "d = 1 \<or> d = x") auto
    qed
  next
    assume a: "\<forall>d. 0 < d \<and> d dvd x \<longrightarrow> d = 1 \<or> d = x"
    show "\<forall>d\<in>{2..<x}. \<not> d dvd x"
    proof
      fix d assume "d \<in> {2..<x}"
      then have "0 < d" "d \<noteq> 1" "d \<noteq> x" by auto
      with a show "\<not> d dvd x" by blast
    qed
  qed
  then show ?thesis
    using False by (simp add: is_prime_pythonic_def sympy_isprime_def standard_prime_def)
qed

lemma is_prime_pythonic_table:
  "\<forall>x\<in>{- 5..30}. is_prime_pythonic x = (x \<in> {2, 3, 5, 7, 11, 13, 17, 19, 23, 29})"
  by code_simp

text \<open>
  C4. On the integers from \<open>-5\<close> to 30 the test agrees with the standard definition of a prime:
  it is false below 2 and true exactly on 2, 3, 5, 7, 11, 13, 17, 19, 23 and 29.
\<close>

theorem is_prime_pythonic_small:
  "\<forall>x\<in>{- 5..30}. (is_prime_pythonic x \<longleftrightarrow> standard_prime x)
      \<and> (x < 2 \<longrightarrow> \<not> is_prime_pythonic x)
      \<and> (is_prime_pythonic x \<longleftrightarrow> x \<in> {2, 3, 5, 7, 11, 13, 17, 19, 23, 29})"
proof
  fix x :: int assume x: "x \<in> {- 5..30}"
  have "is_prime_pythonic x \<longleftrightarrow> standard_prime x"
    by (rule is_prime_pythonic_standard)
  moreover have "x < 2 \<longrightarrow> \<not> is_prime_pythonic x"
    by (simp add: is_prime_pythonic_def)
  moreover have "is_prime_pythonic x \<longleftrightarrow> x \<in> {2, 3, 5, 7, 11, 13, 17, 19, 23, 29}"
    using is_prime_pythonic_table x by blast
  ultimately show "(is_prime_pythonic x \<longleftrightarrow> standard_prime x)
      \<and> (x < 2 \<longrightarrow> \<not> is_prime_pythonic x)
      \<and> (is_prime_pythonic x \<longleftrightarrow> x \<in> {2, 3, 5, 7, 11, 13, 17, 19, 23, 29})"
    by blast
qed

theorem is_prime_pythonic_small_witness:
  "(29::int) \<in> {- 5..30} \<and> is_prime_pythonic 29 \<and> standard_prime 29
     \<and> (1::int) \<in> {- 5..30} \<and> \<not> is_prime_pythonic 1"
proof -
  have a: "(29::int) \<in> {- 5..30}" and b: "(1::int) \<in> {- 5..30}" by simp_all
  from bspec[OF is_prime_pythonic_small a] bspec[OF is_prime_pythonic_small b] a b
  show ?thesis by auto
qed

section \<open>Properties of the experiment\<close>

subsection \<open>The steps of a run\<close>

lemma base_MFM_total:
  assumes "1 \<le> n \<longrightarrow> pow_1_5 env n \<noteq> 0"
  shows "\<exists>b. base_MFM env n = Inr b"
  using assms by (simp add: base_MFM_def Let_def)

lemma base_values_Inr:
  "base_values env ns = Inr bs \<Longrightarrow>
     length bs = length ns \<and> (\<forall>i<length ns. base_MFM env (ns ! i) = Inr (bs ! i))"
proof (induction ns arbitrary: bs)
  case Nil
  then show ?case by simp
next
  case (Cons n ns)
  from Cons.prems obtain b bs' where
    b: "base_MFM env n = Inr b" and bs': "base_values env ns = Inr bs'" and bs: "bs = b # bs'"
    by (auto split: sum.splits)
  from Cons.IH[OF bs'] b bs show ?case
    by (auto simp: nth_Cons split: nat.splits)
qed

lemma base_values_total:
  assumes "\<forall>n\<in>set ns. 1 \<le> n \<longrightarrow> pow_1_5 env n \<noteq> 0"
  shows "\<exists>bs. base_values env ns = Inr bs"
  using assms
proof (induction ns)
  case Nil
  then show ?case by simp
next
  case (Cons n ns)
  then obtain bs where "base_values env ns = Inr bs" by auto
  moreover obtain b where "base_MFM env n = Inr b"
    using base_MFM_total[of n env] Cons.prems by auto
  ultimately show ?case by simp
qed

lemma uniform_nonneg: "0 \<le> K \<Longrightarrow> uniform g K = Inr (map g [0..<nat K], (\<lambda>i. g (i + nat K)))"
  by (simp add: uniform_def)

lemma uniform_negative: "K < 0 \<Longrightarrow> uniform g K = Inl ValueError"
  by (simp add: uniform_def)

lemma fourier_loop_total:
  assumes "0 < N" and "length corrections = length ns"
  shows "\<exists>cs. fourier_loop env N ns coeffs ks corrections = Inr cs \<and> length cs = length ns"
  using assms(2)
proof (induction ks arbitrary: corrections)
  case Nil
  then show ?case by simp
next
  case (Cons k ks)
  then show ?case
    using assms(1) by (simp add: Let_def)
qed

lemma fourier_loop_empty_array:
  "ks \<noteq> [] \<Longrightarrow> fourier_loop env 0 ns coeffs ks corrections = Inl ZeroDivisionError"
  by (cases ks) simp_all

lemma np_round_0: "np_round 0 = 0"
  by (simp add: np_round_def)

lemma py_int_0: "py_int 0 = 0"
  by (simp add: py_int_def)

lemma correction_fourier_K0:
  "correction_fourier env g ns 0 = Inr (replicate (length ns) 0, g)"
  by (simp add: correction_fourier_def uniform_def np_round_0)

lemma correction_fourier_total:
  assumes "ns \<noteq> []" and "0 \<le> K"
  shows "\<exists>cv. correction_fourier env g ns K = Inr (cv, (\<lambda>i. g (i + nat K)))
            \<and> length cv = length ns"
proof -
  have "\<exists>cs. fourier_loop env (length ns) ns (map g [0..<nat K]) [0..<nat K]
        (replicate (length ns) 0) = Inr cs \<and> length cs = length ns"
    by (rule fourier_loop_total) (use assms(1) in simp_all)
  then show ?thesis
    using assms(2) by (auto simp: correction_fourier_def uniform_nonneg)
qed

lemma correction_fourier_empty_array:
  assumes "0 < K"
  shows "correction_fourier env g [] K = Inl ZeroDivisionError"
proof -
  have "[0..<nat K] \<noteq> []" using assms by simp
  then show ?thesis
    using assms by (simp add: correction_fourier_def uniform_nonneg fourier_loop_empty_array)
qed

lemma correction_fourier_negative:
  "K < 0 \<Longrightarrow> correction_fourier env g ns K = Inl ValueError"
  by (simp add: correction_fourier_def uniform_negative)

lemma corrected_values_total:
  assumes "ns \<noteq> []" and "0 \<le> K" and "\<forall>n\<in>set ns. 1 \<le> n \<longrightarrow> pow_1_5 env n \<noteq> 0"
  shows "\<exists>seq. corrected_values env g ns K = Inr (seq, (\<lambda>i. g (i + nat K)))
            \<and> length seq = length ns"
proof -
  obtain bs where bs: "base_values env ns = Inr bs"
    using base_values_total[OF assms(3)] by blast
  obtain cv where cv: "correction_fourier env g ns K = Inr (cv, (\<lambda>i. g (i + nat K)))"
    using correction_fourier_total[OF assms(1,2)] by blast
  show ?thesis
    by (simp add: corrected_values_def bs cv)
qed

lemma corrected_values_length:
  "corrected_values env g ns K = Inr (seq, g') \<Longrightarrow> length seq = length ns"
  by (auto simp: corrected_values_def split: sum.splits)

lemma corrected_values_empty_range:
  "corrected_values env g [] K =
     (if K < 0 then Inl ValueError else if 0 < K then Inl ZeroDivisionError else Inr ([], g))"
  by (simp add: corrected_values_def correction_fourier_negative correction_fourier_empty_array
      correction_fourier_K0)

lemma run_K_empty_range:
  "run_K env w [] K = Inl (if K < 0 then ValueError else ZeroDivisionError)"
  by (simp add: run_K_def time_time_def corrected_values_empty_range)

lemma count_flags:
  "length (filter (\<lambda>b. b) (map P xs)) = length (filter P xs)"
  by (induction xs) simp_all

lemma run_K_Inr:
  assumes "run_K env w ns K = Inr (r, w')"
  shows "\<exists>seq. corrected_values env (rng w) ns K = Inr (seq, rng w')
           \<and> seq \<noteq> []
           \<and> res_K r = K
           \<and> res_prime_count r = int (length (filter is_prime_pythonic seq))
           \<and> res_prime_fraction r = fdiv env (of_int (res_prime_count r)) (of_nat (length seq))
           \<and> res_elapsed r = fsub env (clock w 1) (clock w 0)
           \<and> clock w' = (\<lambda>i. clock w (i + 2))"
  using assms
  by (auto simp: run_K_def time_time_def Let_def o_def split: sum.splits if_splits)

lemma run_K_total:
  assumes "ns \<noteq> []" and "0 \<le> K" and "\<forall>n\<in>set ns. 1 \<le> n \<longrightarrow> pow_1_5 env n \<noteq> 0"
  shows "\<exists>r w'. run_K env w ns K = Inr (r, w')"
proof -
  obtain seq where "corrected_values env (rng w) ns K = Inr (seq, (\<lambda>i. rng w (i + nat K)))"
      and "length seq = length ns"
    using corrected_values_total[OF assms] by blast
  moreover from this have "seq \<noteq> []"
    using assms(1) by auto
  ultimately show ?thesis
    by (simp add: run_K_def time_time_def Let_def)
qed

lemma run_K_res_K: "run_K env w ns K = Inr (r, w1) \<Longrightarrow> res_K r = K"
  using run_K_Inr[of env w ns K r w1] by auto

lemma sweep_Cons_Inr:
  assumes "sweep env ns w rs (K # Ks) = Inr (rs', w')"
  obtains r w1 where "run_K env w ns K = Inr (r, w1)"
    and "sweep env ns w1 (rs @ [r]) Ks = Inr (rs', w')"
proof (cases "run_K env w ns K")
  case (Inl e)
  with assms show ?thesis by simp
next
  case (Inr p)
  obtain r w1 where p: "p = (r, w1)" by (cases p)
  with Inr assms have "sweep env ns w1 (rs @ [r]) Ks = Inr (rs', w')" by simp
  with Inr p that show ?thesis by simp
qed

lemma sweep_Inr:
  "sweep env ns w rs Ks = Inr (rs', w') \<Longrightarrow> \<exists>new. rs' = rs @ new \<and> map res_K new = Ks"
proof (induction Ks arbitrary: w rs)
  case Nil
  then show ?case by simp
next
  case (Cons K Ks)
  from Cons.prems obtain r w1 where
    r: "run_K env w ns K = Inr (r, w1)" and s: "sweep env ns w1 (rs @ [r]) Ks = Inr (rs', w')"
    by (rule sweep_Cons_Inr)
  from Cons.IH[OF s] obtain new where new: "rs' = (rs @ [r]) @ new" "map res_K new = Ks"
    by auto
  have k: "res_K r = K" using r by (rule run_K_res_K)
  have "rs' = rs @ (r # new)" using new(1) by simp
  moreover have "map res_K (r # new) = K # Ks" using new(2) k by simp
  ultimately show ?case by (intro exI[of _ "r # new"] conjI)
qed

lemma sweep_total:
  assumes "ns \<noteq> []" and "\<forall>n\<in>set ns. 1 \<le> n \<longrightarrow> pow_1_5 env n \<noteq> 0"
  shows "\<forall>K\<in>set Ks. 0 \<le> K \<Longrightarrow> \<exists>rs' w'. sweep env ns w rs Ks = Inr (rs', w')"
proof (induction Ks arbitrary: w rs)
  case Nil
  then show ?case by simp
next
  case (Cons K Ks)
  then have "0 \<le> K" by simp
  then have "\<exists>r w1. run_K env w ns K = Inr (r, w1)"
    using assms by (intro run_K_total)
  then obtain r w1 where r: "run_K env w ns K = Inr (r, w1)" by auto
  have "\<forall>K\<in>set Ks. 0 \<le> K" using Cons.prems by simp
  then have "\<exists>rs' w'. sweep env ns w1 (rs @ [r]) Ks = Inr (rs', w')"
    by (rule Cons.IH)
  with r show ?case by simp
qed

lemma sweep_append:
  "sweep env ns w rs (Ks1 @ Ks2) =
     (case sweep env ns w rs Ks1 of
        Inl e \<Rightarrow> Inl e
      | Inr (rs1, w1) \<Rightarrow> sweep env ns w1 rs1 Ks2)"
proof (induction Ks1 arbitrary: w rs)
  case Nil
  show ?case by simp
next
  case (Cons K Ks1)
  show ?case
  proof (cases "run_K env w ns K")
    case (Inl e)
    then show ?thesis by simp
  next
    case (Inr p)
    obtain r w1 where "p = (r, w1)" by (cases p)
    with Inr Cons.IH[of w1 "rs @ [r]"] show ?thesis by simp
  qed
qed

subsection \<open>The sweep over the values of K\<close>

lemma sweep_take:
  assumes "sweep env ns w rs Ks = Inr (rs', w')"
  shows "\<exists>w1. sweep env ns w rs (take j Ks) = Inr (take (length rs + min j (length Ks)) rs', w1)"
proof -
  have split: "sweep env ns w rs (take j Ks @ drop j Ks) = Inr (rs', w')"
    using assms by simp
  show ?thesis
  proof (cases "sweep env ns w rs (take j Ks)")
    case (Inl e)
    with split show ?thesis unfolding sweep_append by simp
  next
    case (Inr p)
    obtain rs1 w1 where p: "p = (rs1, w1)" by (cases p)
    have a: "sweep env ns w rs (take j Ks) = Inr (rs1, w1)" using Inr p by simp
    have b: "sweep env ns w1 rs1 (drop j Ks) = Inr (rs', w')"
      using split unfolding sweep_append a by simp
    from sweep_Inr[OF a] obtain new1 where n1: "rs1 = rs @ new1" "map res_K new1 = take j Ks"
      by auto
    from sweep_Inr[OF b] obtain new2 where n2: "rs' = rs1 @ new2"
      by auto
    have "length (map res_K new1) = length (take j Ks)" using n1(2) by simp
    then have "length new1 = min j (length Ks)" by (simp add: min.commute)
    then have "take (length rs + min j (length Ks)) rs' = rs1"
      using n1(1) n2 by simp
    with a show ?thesis by simp
  qed
qed

lemma main_Inr:
  assumes "main env w N_MAX Ks = Inr rs"
  shows "map res_K rs = Ks"
    and "main env w N_MAX (take j Ks) = Inr (take j rs)"
proof -
  have "\<exists>w'. sweep env [1..N_MAX] w [] Ks = Inr (rs, w')"
  proof (cases "sweep env [1..N_MAX] w [] Ks")
    case (Inl e)
    with assms show ?thesis by (simp add: main_def)
  next
    case (Inr p)
    with assms show ?thesis by (cases p) (simp add: main_def)
  qed
  then obtain w' where s: "sweep env [1..N_MAX] w [] Ks = Inr (rs, w')" by auto
  from sweep_Inr[OF s] show k: "map res_K rs = Ks" by simp
  have "length (map res_K rs) = length Ks" using k by simp
  then have "length rs = length Ks" by simp
  then have t: "take (min j (length Ks)) rs = take j rs"
    by (simp add: min_def)
  from sweep_take[OF s, of j] obtain w1 where
    "sweep env [1..N_MAX] w [] (take j Ks) = Inr (take (min j (length Ks)) rs, w1)"
    by auto
  then show "main env w N_MAX (take j Ks) = Inr (take j rs)"
    using t by (simp add: main_def)
qed

lemma main_total:
  assumes "1 \<le> N_MAX" and "\<forall>K\<in>set Ks. 0 \<le> K" and "\<forall>n\<in>{1..N_MAX}. pow_1_5 env n \<noteq> 0"
  shows "\<exists>rs. main env w N_MAX Ks = Inr rs"
proof -
  have ne: "[1..N_MAX] \<noteq> []" using assms(1) by (simp add: upto.simps)
  have ok: "\<forall>n\<in>set [1..N_MAX]. 1 \<le> n \<longrightarrow> pow_1_5 env n \<noteq> 0" using assms(3) by simp
  have "\<exists>rs w'. sweep env [1..N_MAX] w [] Ks = Inr (rs, w')"
    using ne ok assms(2) by (rule sweep_total)
  then obtain rs w' where "sweep env [1..N_MAX] w [] Ks = Inr (rs, w')" by auto
  then have "main env w N_MAX Ks = Inr rs" by (simp add: main_def)
  then show ?thesis by (rule exI)
qed

subsection \<open>Runs on the reference platform\<close>

text \<open>
  A sweep that can be traced by hand: the index range is \<open>[1]\<close>, whose base value is 3, and
  \<^verbatim>\<open>K_VALUES\<close> is \<open>[1, 1]\<close>. With one coefficient the correction is the coefficient times
  \<open>cos 0\<close>. The generator returns 1 and then 0, and the clock 0, 1, 2 and 3.
\<close>

lemma base_values_reference_1: "base_values reference_env [1] = Inr [3]"
  by (simp add: base_MFM_def fibonacci_sympy_def float_pow_1)

lemma correction_fourier_reference_1:
  "correction_fourier reference_env g [1] 1 = Inr ([np_round (g 0)], (\<lambda>i. g (i + 1)))"
  by (simp add: correction_fourier_def uniform_def fdiv_def fmul_def fadd_def)

lemma corrected_values_reference_1:
  "corrected_values reference_env g [1] 1 = Inr ([3 + py_int (np_round (g 0))], (\<lambda>i. g (i + 1)))"
  unfolding corrected_values_def base_values_reference_1 correction_fourier_reference_1
  by simp

lemma np_round_1: "np_round 1 = 1"
  by (simp add: np_round_def)

lemma py_int_1: "py_int 1 = 1"
  by (simp add: py_int_def)

lemma is_prime_pythonic_3_4: "is_prime_pythonic 3" "\<not> is_prime_pythonic 4"
  by code_simp+

lemma upto_1_1: "[1..1::int] = [1]"
  by (simp add: upto.simps)

lemma main_reference_1_1:
  "main reference_env \<lparr>rng = (\<lambda>i. if i = 0 then 1 else 0), clock = (\<lambda>i. real i)\<rparr> 1 [1, 1]
     = Inr [\<lparr>res_K = 1, res_prime_count = 0, res_prime_fraction = 0, res_elapsed = 1\<rparr>,
            \<lparr>res_K = 1, res_prime_count = 1, res_prime_fraction = 1, res_elapsed = 1\<rparr>]"
  unfolding main_def upto_1_1 sweep.simps run_K_def time_time_def
  by (simp add: corrected_values_reference_1 np_round_0 np_round_1 py_int_0 py_int_1
      is_prime_pythonic_3_4 fdiv_def fsub_def)

subsection \<open>The claims about the experiment\<close>

lemma zero_correction_keeps_base:
  assumes "length bs = N"
  shows "map (\<lambda>i. bs ! i + py_int (replicate N 0 ! i)) [0..<N] = bs"
proof -
  have "map (\<lambda>i. bs ! i + py_int (replicate N 0 ! i)) [0..<N] = map (\<lambda>i. bs ! i) [0..<N]"
    by (rule map_cong) (simp_all add: py_int_0)
  also have "\<dots> = bs" unfolding assms[symmetric] by (rule map_nth)
  finally show ?thesis .
qed

text \<open>
  C5. With \<open>K = 0\<close> there is no coefficient: the correction is 0 at every index, and every
  corrected value is the base value of its index. No assumption on the index sequence is
  needed beyond the base values being defined.
\<close>

theorem no_coefficients_no_correction:
  assumes "\<forall>n\<in>set n_values. 1 \<le> n \<longrightarrow> pow_1_5 env n \<noteq> 0"
  shows "correction_fourier env g n_values 0 = Inr (replicate (length n_values) 0, g)
       \<and> (\<exists>seq. corrected_values env g n_values 0 = Inr (seq, g)
             \<and> length seq = length n_values
             \<and> (\<forall>i<length n_values. base_MFM env (n_values ! i) = Inr (seq ! i)))"
proof -
  obtain bs where bs: "base_values env n_values = Inr bs"
    using base_values_total[OF assms] by auto
  have l: "length bs = length n_values"
    and b: "\<forall>i<length n_values. base_MFM env (n_values ! i) = Inr (bs ! i)"
    using base_values_Inr[OF bs] by simp_all
  have c: "correction_fourier env g n_values 0 = Inr (replicate (length n_values) 0, g)"
    by (rule correction_fourier_K0)
  have "corrected_values env g n_values 0 = Inr (bs, g)"
    by (simp add: corrected_values_def bs c zero_correction_keeps_base[OF l])
  with l b have "\<exists>seq. corrected_values env g n_values 0 = Inr (seq, g)
             \<and> length seq = length n_values
             \<and> (\<forall>i<length n_values. base_MFM env (n_values ! i) = Inr (seq ! i))"
    by (intro exI[of _ bs] conjI)
  with c show ?thesis by (rule conjI)
qed


theorem no_coefficients_no_correction_witness:
  "pow_1_5 reference_env 1 \<noteq> 0 \<and> pow_1_5 reference_env 4 \<noteq> 0 \<and> pow_1_5 reference_env 10 \<noteq> 0
     \<and> correction_fourier reference_env (\<lambda>i. 1) [1, 4, 10] 0 = Inr ([0, 0, 0], (\<lambda>i. 1))
     \<and> (\<exists>seq. corrected_values reference_env (\<lambda>i. 1) [1, 4, 10] 0 = Inr (seq, (\<lambda>i. 1))
           \<and> base_MFM reference_env 1 = Inr (seq ! 0))"
proof -
  have p: "pow_1_5 reference_env 1 \<noteq> 0" "pow_1_5 reference_env 4 \<noteq> 0"
    "pow_1_5 reference_env 10 \<noteq> 0"
    by (simp_all add: float_pow_1 float_pow_4 float_pow_10)
  then have h: "\<forall>n\<in>set [1, 4, 10]. 1 \<le> n \<longrightarrow> pow_1_5 reference_env n \<noteq> 0"
    by simp
  from no_coefficients_no_correction[OF h, of "\<lambda>i. 1"]
  have c: "correction_fourier reference_env (\<lambda>i. 1) [1, 4, 10] 0 = Inr ([0, 0, 0], (\<lambda>i. 1))"
    by (simp add: numeral_3_eq_3)
  from no_coefficients_no_correction[OF h, of "\<lambda>i. 1"] obtain seq where
    s: "corrected_values reference_env (\<lambda>i. 1) [1, 4, 10] 0 = Inr (seq, (\<lambda>i. 1))"
    and b: "\<forall>i<length [1, 4, 10 :: int]. base_MFM reference_env ([1, 4, 10] ! i) = Inr (seq ! i)"
    by auto
  from b[rule_format, of 0] have "base_MFM reference_env 1 = Inr (seq ! 0)"
    by simp
  with s have "\<exists>seq. corrected_values reference_env (\<lambda>i. 1) [1, 4, 10] 0 = Inr (seq, (\<lambda>i. 1))
           \<and> base_MFM reference_env 1 = Inr (seq ! 0)"
    by (intro exI[of _ seq] conjI)
  with p c show ?thesis by simp
qed

text \<open>
  A run that can be traced by hand on the platform \<open>binary64_env\<close>: the indices 1 to 12 with
  \<open>K = 0\<close>. The base values are 3, 2, 2, 2, 2, 2, 2, 2, 3, 3, 4 and 5, the corrections are 0,
  and 11 of the 12 corrected values are prime.
\<close>

lemma upto_1_12: "[1..12::int] = [1, 2, 3, 4, 5, 6, 7, 8, 9, 10, 11, 12]"
  by code_simp

lemma base_MFM_float_pow_1_12:
  "base_MFM binary64_env 1 = Inr 3" "base_MFM binary64_env 2 = Inr 2"
  "base_MFM binary64_env 3 = Inr 2" "base_MFM binary64_env 4 = Inr 2"
  "base_MFM binary64_env 5 = Inr 2" "base_MFM binary64_env 6 = Inr 2"
  "base_MFM binary64_env 7 = Inr 2" "base_MFM binary64_env 8 = Inr 2"
  "base_MFM binary64_env 9 = Inr 3" "base_MFM binary64_env 10 = Inr 3"
  "base_MFM binary64_env 11 = Inr 4" "base_MFM binary64_env 12 = Inr 5"
  unfolding base_MFM_def by (simp, code_simp)+

lemma base_values_1_12:
  "base_values binary64_env [1, 2, 3, 4, 5, 6, 7, 8, 9, 10, 11, 12]
     = Inr [3, 2, 2, 2, 2, 2, 2, 2, 3, 3, 4, 5]"
  unfolding base_values.simps base_MFM_float_pow_1_12 by simp

lemma corrected_values_K0:
  assumes "base_values env ns = Inr bs"
  shows "corrected_values env g ns 0 = Inr (bs, g)"
proof -
  have l: "length bs = length ns" using base_values_Inr[OF assms] by simp
  show ?thesis
    by (simp add: corrected_values_def assms correction_fourier_K0 zero_correction_keeps_base[OF l])
qed

lemma is_prime_pythonic_2_5: "is_prime_pythonic 2" "is_prime_pythonic 5"
  by code_simp+

lemma run_K_binary64_1_12:
  "run_K binary64_env \<lparr>rng = (\<lambda>i. 0), clock = (\<lambda>i. real i)\<rparr> [1..12] 0
     = Inr (\<lparr>res_K = 0, res_prime_count = 11,
             res_prime_fraction = 8256599316845909 / 9007199254740992, res_elapsed = 1\<rparr>,
            \<lparr>rng = (\<lambda>i. 0), clock = (\<lambda>i. real (Suc (Suc i)))\<rparr>)"
  unfolding run_K_def time_time_def upto_1_12
  by (simp add: corrected_values_K0[OF base_values_1_12] is_prime_pythonic_2_5 is_prime_pythonic_3_4
      fdiv_def fsub_def round_b64_11_12 round_b64_1 Let_def)

text \<open>
  C6, as stated, fails: \<^verbatim>\<open>prime_fraction\<close> is a float, the rounded quotient. For the
  indices 1 to 12 and \<open>K = 0\<close> the count is 11, and the recorded fraction is
  \<open>8256599316845909 / 2^53\<close> (printed 0.9166666666666666), which is not \<open>11 / 12\<close>.
\<close>

theorem prime_fraction_not_exact:
  "main binary64_env \<lparr>rng = (\<lambda>i. 0), clock = (\<lambda>i. real i)\<rparr> 12 [0]
     = Inr [\<lparr>res_K = 0, res_prime_count = 11,
             res_prime_fraction = 8256599316845909 / 9007199254740992, res_elapsed = 1\<rparr>]
   \<and> (8256599316845909 / 9007199254740992 :: real) \<noteq> 11 / 12"
  by (simp add: main_def run_K_binary64_1_12)

lemma rounds_unit_interval_quotient:
  assumes f: "rounds_unit_interval f" and c: "0 \<le> c" "c \<le> int N" and N: "0 < N" "N \<le> 2 ^ 53"
  shows "\<bar>f (of_int c / of_nat N) - of_int c / of_nat N\<bar> \<le> of_int c / of_nat N / 2 ^ 53"
    and "0 \<le> f (of_int c / of_nat N)" and "f (of_int c / of_nat N) \<le> 1"
proof -
  let ?q = "real_of_int c / real N"
  have f0: "f 0 = 0"
    and fq: "\<forall>x. 1 / 2 ^ 1022 \<le> x \<and> x \<le> 1 \<longrightarrow> \<bar>f x - x\<bar> \<le> x / 2 ^ 53 \<and> f x \<le> 1"
    using f unfolding rounds_unit_interval_def by blast+
  have "\<bar>f ?q - ?q\<bar> \<le> ?q / 2 ^ 53 \<and> 0 \<le> f ?q \<and> f ?q \<le> 1"
  proof (cases "c = 0")
    case True
    then show ?thesis using f0 by simp
  next
    case False
    then have c1: "1 \<le> real_of_int c" using c(1) by linarith
    have Nr: "0 < real N" "real N \<le> 2 ^ 53" using N by simp_all
    have "(1::real) / 2 ^ 1022 \<le> 1 / 2 ^ 53" by simp
    also have "\<dots> \<le> 1 / real N" using Nr by (simp add: field_simps)
    also have "\<dots> \<le> ?q" using c1 Nr(1) by (simp add: divide_right_mono)
    finally have lo: "1 / 2 ^ 1022 \<le> ?q" .
    have "real_of_int c \<le> real N" using c(2) by linarith
    then have hi: "?q \<le> 1" using Nr(1) by simp
    from fq lo hi have b: "\<bar>f ?q - ?q\<bar> \<le> ?q / 2 ^ 53" "f ?q \<le> 1" by blast+
    have q0: "0 \<le> ?q" using c(1) by simp
    have "?q / 2 ^ 53 \<le> ?q" using q0 by (simp add: field_simps)
    with b(1) have "0 \<le> f ?q" by linarith
    with b show ?thesis by simp
  qed
  then show "\<bar>f ?q - ?q\<bar> \<le> ?q / 2 ^ 53" "0 \<le> f ?q" "f ?q \<le> 1" by blast+
qed

text \<open>
  C6, amended. For a run over a non-empty index range of length \<open>N\<close> (at most \<open>2^53\<close>, so that
  \<open>N\<close> and the count are binary64 numbers), the recorded \<^verbatim>\<open>prime_count\<close> is the number of
  indices whose corrected value is prime, and the recorded \<^verbatim>\<open>prime_fraction\<close> is the quotient
  of that count by \<open>N\<close> rounded once to binary64: it differs from the exact quotient by at most
  \<open>2^-53\<close> of the quotient, and it lies between 0 and 1.
\<close>

theorem prime_fraction_rounded_quotient:
  assumes "n_values \<noteq> []" and "length n_values \<le> 2 ^ 53" and "0 \<le> K"
    and "\<forall>n\<in>set n_values. 1 \<le> n \<longrightarrow> pow_1_5 env n \<noteq> 0"
    and "rounds_unit_interval (rnd env)"
  shows "\<exists>r w' seq. run_K env w n_values K = Inr (r, w')
           \<and> corrected_values env (rng w) n_values K = Inr (seq, rng w')
           \<and> length seq = length n_values
           \<and> res_prime_count r = int (card {i. i < length seq \<and> is_prime_pythonic (seq ! i)})
           \<and> res_prime_fraction r
                = rnd env (of_int (res_prime_count r) / of_nat (length n_values))
           \<and> \<bar>res_prime_fraction r - of_int (res_prime_count r) / of_nat (length n_values)\<bar>
                \<le> of_int (res_prime_count r) / of_nat (length n_values) / 2 ^ 53
           \<and> 0 \<le> res_prime_fraction r \<and> res_prime_fraction r \<le> 1"
proof -
  obtain r w' where run: "run_K env w n_values K = Inr (r, w')"
    using run_K_total[OF assms(1,3,4), of w] by auto
  from run_K_Inr[OF run] obtain seq where
    cv: "corrected_values env (rng w) n_values K = Inr (seq, rng w')" and
    pc: "res_prime_count r = int (length (filter is_prime_pythonic seq))" and
    pf: "res_prime_fraction r = fdiv env (of_int (res_prime_count r)) (of_nat (length seq))"
    by auto
  have l: "length seq = length n_values"
    using cv by (rule corrected_values_length)
  have N: "0 < length n_values" using assms(1) by simp
  have card: "res_prime_count r = int (card {i. i < length seq \<and> is_prime_pythonic (seq ! i)})"
    using pc by (simp add: length_filter_conv_card)
  have frac: "res_prime_fraction r = rnd env (of_int (res_prime_count r) / of_nat (length n_values))"
    using pf l by (simp add: fdiv_def)
  have "length (filter is_prime_pythonic seq) \<le> length n_values"
    using length_filter_le[of is_prime_pythonic seq] l by simp
  then have le: "res_prime_count r \<le> int (length n_values)"
    using pc by simp
  have ge: "0 \<le> res_prime_count r" using pc by simp
  note q = rounds_unit_interval_quotient[OF assms(5) ge le N assms(2)]
  have e: "\<bar>res_prime_fraction r - of_int (res_prime_count r) / of_nat (length n_values)\<bar>
                \<le> of_int (res_prime_count r) / of_nat (length n_values) / 2 ^ 53"
    unfolding frac by (rule q(1))
  have b: "0 \<le> res_prime_fraction r" "res_prime_fraction r \<le> 1"
    unfolding frac by (rule q(2), rule q(3))
  from run cv l card frac e b show ?thesis
    by (intro exI[of _ r] exI[of _ w'] exI[of _ seq] conjI)
qed

theorem prime_fraction_rounded_quotient_witness:
  "[1..12] \<noteq> ([] :: int list) \<and> length [1..12] \<le> 2 ^ 53 \<and> (0::int) \<le> 0
     \<and> rounds_unit_interval (rnd binary64_env)
     \<and> (\<exists>r w'. run_K binary64_env \<lparr>rng = (\<lambda>i. 0), clock = (\<lambda>i. real i)\<rparr> [1..12] 0 = Inr (r, w')
           \<and> res_prime_count r = 11
           \<and> res_prime_fraction r = 8256599316845909 / 9007199254740992
           \<and> \<bar>res_prime_fraction r - 11 / 12\<bar> \<le> 11 / 12 / 2 ^ 53
           \<and> 0 \<le> res_prime_fraction r \<and> res_prime_fraction r \<le> 1)"
proof -
  have h1: "[1..12] \<noteq> ([] :: int list)" by (simp add: upto_1_12)
  have h2: "length [1..12] \<le> 2 ^ 53" by (simp add: upto_1_12)
  have h3: "(0::int) \<le> 0" by simp
  have h4: "\<forall>n\<in>set [1..12]. 1 \<le> n \<longrightarrow> pow_1_5 binary64_env n \<noteq> 0"
    using float_pow_positive by fastforce
  have h5: "rounds_unit_interval (rnd binary64_env)"
    by (simp add: round_b64_rounds_unit_interval)
  from prime_fraction_rounded_quotient[OF h1 h2 h3 h4 h5,
      of "\<lparr>rng = (\<lambda>i. 0), clock = (\<lambda>i. real i)\<rparr>"]
  have "\<exists>r w'. run_K binary64_env \<lparr>rng = (\<lambda>i. 0), clock = (\<lambda>i. real i)\<rparr> [1..12] 0 = Inr (r, w')
           \<and> res_prime_count r = 11
           \<and> res_prime_fraction r = 8256599316845909 / 9007199254740992
           \<and> \<bar>res_prime_fraction r - 11 / 12\<bar> \<le> 11 / 12 / 2 ^ 53
           \<and> 0 \<le> res_prime_fraction r \<and> res_prime_fraction r \<le> 1"
    unfolding run_K_binary64_1_12 by (simp add: upto_1_12)
  with h1 h2 h3 h5 show ?thesis by simp
qed

text \<open>
  C7. For a non-empty index range and values of \<open>K\<close> that are not negative, the sweep returns
  one record per configured \<open>K\<close>, in the configured order, whatever the clock returns; and the
  records of the first \<open>j\<close> values of \<open>K\<close> are the first \<open>j\<close> records of the whole sweep: records
  are appended, never removed or reordered.
\<close>

theorem main_one_record_per_K:
  assumes "1 \<le> N_MAX" and "\<forall>K\<in>set Ks. 0 \<le> K" and "\<forall>n\<in>{1..N_MAX}. pow_1_5 env n \<noteq> 0"
  shows "\<exists>rs. main env w N_MAX Ks = Inr rs
           \<and> length rs = length Ks
           \<and> map res_K rs = Ks
           \<and> (\<forall>j. main env w N_MAX (take j Ks) = Inr (take j rs))"
proof -
  obtain rs where rs: "main env w N_MAX Ks = Inr rs"
    using main_total[OF assms] by auto
  have k: "map res_K rs = Ks" by (rule main_Inr(1)[OF rs])
  have "length (map res_K rs) = length Ks" using k by simp
  then have l: "length rs = length Ks" by simp
  have t: "\<forall>j. main env w N_MAX (take j Ks) = Inr (take j rs)"
    using main_Inr(2)[OF rs] by simp
  show ?thesis
    using rs l k t by (intro exI[of _ rs] conjI)
qed

theorem main_one_record_per_K_witness:
  "(1::int) \<le> 1 \<and> pow_1_5 reference_env 1 \<noteq> 0
     \<and> (\<exists>rs. main reference_env \<lparr>rng = (\<lambda>i. 0), clock = (\<lambda>i. real i)\<rparr> 1 [1, 1] = Inr rs
           \<and> map res_K rs = [1, 1])"
proof -
  have h1: "(1::int) \<le> 1" and h2: "\<forall>K\<in>set [1, 1]. (0::int) \<le> K" by simp_all
  have h3: "\<forall>n\<in>{1..1}. pow_1_5 reference_env n \<noteq> 0"
    by (simp add: float_pow_1)
  from main_one_record_per_K[OF h1 h2 h3, of "\<lparr>rng = (\<lambda>i. 0), clock = (\<lambda>i. real i)\<rparr>"]
  have "\<exists>rs. main reference_env \<lparr>rng = (\<lambda>i. 0), clock = (\<lambda>i. real i)\<rparr> 1 [1, 1] = Inr rs
           \<and> map res_K rs = [1, 1]"
    by auto
  with h1 h2 h3 show ?thesis by simp
qed

lemma main_empty_range:
  assumes "N_MAX < 1"
  shows "main env w N_MAX (K # Ks) = Inl (if K < 0 then ValueError else ZeroDivisionError)"
  using assms by (simp add: main_def run_K_empty_range)

text \<open>
  C2, as stated, fails for an empty index range with a value of \<open>K\<close> to run: with
  \<^verbatim>\<open>N_MAX = 0\<close> and \<^verbatim>\<open>K_VALUES = [5]\<close> the frequency \<^verbatim>\<open>(2.0 * np.pi * k) / N\<close> divides by
  zero, and the sweep ends with \<^verbatim>\<open>ZeroDivisionError\<close> instead of an empty result.
\<close>

theorem main_empty_range_fails:
  "main reference_env \<lparr>rng = (\<lambda>i. 0), clock = (\<lambda>i. real i)\<rparr> 0 [5] = Inl ZeroDivisionError"
  by (simp add: main_empty_range)

text \<open>
  C2, amended. With no value of \<open>K\<close> the sweep returns the empty result and raises nothing,
  whatever \<^verbatim>\<open>N_MAX\<close> is; and a sweep that returns has an empty result only then.
\<close>

theorem main_empty_K_values:
  "main env w N_MAX [] = Inr []
     \<and> (\<forall>rs. main env w N_MAX Ks = Inr rs \<longrightarrow> (rs = [] \<longleftrightarrow> Ks = []))"
proof -
  have "main env w N_MAX [] = Inr []" by (simp add: main_def)
  moreover have "\<forall>rs. main env w N_MAX Ks = Inr rs \<longrightarrow> (rs = [] \<longleftrightarrow> Ks = [])"
  proof (intro allI impI)
    fix rs assume "main env w N_MAX Ks = Inr rs"
    then have "map res_K rs = Ks" by (rule main_Inr(1))
    then show "rs = [] \<longleftrightarrow> Ks = []" by auto
  qed
  ultimately show ?thesis by (rule conjI)
qed

theorem main_empty_K_values_witness:
  "main reference_env \<lparr>rng = (\<lambda>i. if i = 0 then 1 else 0), clock = (\<lambda>i. real i)\<rparr> 1 [1, 1]
     = Inr [\<lparr>res_K = 1, res_prime_count = 0, res_prime_fraction = 0, res_elapsed = 1\<rparr>,
            \<lparr>res_K = 1, res_prime_count = 1, res_prime_fraction = 1, res_elapsed = 1\<rparr>]
   \<and> main reference_env \<lparr>rng = (\<lambda>i. if i = 0 then 1 else 0), clock = (\<lambda>i. real i)\<rparr> (- 2) []
     = Inr []"
  using main_empty_K_values[of reference_env
      "\<lparr>rng = (\<lambda>i. if i = 0 then 1 else 0), clock = (\<lambda>i. real i)\<rparr>" "- 2" "[1, 1]"]
    main_reference_1_1
  by simp

lemma run_K_same_rng:
  assumes "rng w1 = rng w2"
  shows "(\<exists>e. run_K env w1 ns K = Inl e \<and> run_K env w2 ns K = Inl e)
       \<or> (\<exists>r1 v1 r2 v2. run_K env w1 ns K = Inr (r1, v1) \<and> run_K env w2 ns K = Inr (r2, v2)
             \<and> untimed r1 = untimed r2 \<and> rng v1 = rng v2)"
proof (cases "corrected_values env (rng w2) ns K")
  case (Inl e)
  then show ?thesis
    using assms by (simp add: run_K_def time_time_def)
next
  case (Inr p)
  obtain seq g' where p: "p = (seq, g')" by (cases p)
  show ?thesis
  proof (cases "seq = []")
    case True
    then show ?thesis
      using assms Inr p by (simp add: run_K_def time_time_def)
  next
    case False
    then show ?thesis
      using assms Inr p by (simp add: run_K_def time_time_def Let_def untimed_def)
  qed
qed

lemma sweep_same_rng:
  assumes "rng w1 = rng w2" and "map untimed rs1 = map untimed rs2"
  shows "(\<exists>e. sweep env ns w1 rs1 Ks = Inl e \<and> sweep env ns w2 rs2 Ks = Inl e)
       \<or> (\<exists>a v1 b v2. sweep env ns w1 rs1 Ks = Inr (a, v1) \<and> sweep env ns w2 rs2 Ks = Inr (b, v2)
             \<and> map untimed a = map untimed b \<and> rng v1 = rng v2)"
  using assms
proof (induction Ks arbitrary: w1 w2 rs1 rs2)
  case Nil
  then show ?case by simp
next
  case (Cons K Ks)
  from run_K_same_rng[OF Cons.prems(1), of env ns K] show ?case
  proof (elim disjE exE conjE)
    fix e assume "run_K env w1 ns K = Inl e" "run_K env w2 ns K = Inl e"
    then show ?thesis by simp
  next
    fix r1 v1 r2 v2
    assume r: "run_K env w1 ns K = Inr (r1, v1)" "run_K env w2 ns K = Inr (r2, v2)"
      and u: "untimed r1 = untimed r2" and g: "rng v1 = rng v2"
    have "map untimed (rs1 @ [r1]) = map untimed (rs2 @ [r2])"
      using Cons.prems(2) u by simp
    from Cons.IH[OF g this] r show ?thesis by simp
  qed
qed

text \<open>
  The run that a sweep makes after the runs of \<open>Ks\<close> draws the coefficients and computes the
  corrected values that \<open>coefficients_of_run\<close> and \<open>corrected_of_run\<close> give.
\<close>

lemma correction_fourier_coefficients:
  "correction_fourier env g ns K = Inr (cv, g') \<Longrightarrow> \<exists>coeffs. uniform g K = Inr (coeffs, g')"
  by (auto simp: correction_fourier_def Let_def split: sum.splits)

lemma run_in_sweep:
  assumes "sweep env ns w [] (Ks @ [K]) = Inr (rs, w'')"
  shows "\<exists>coeffs seq. coefficients_of_run env ns w Ks K = Inr coeffs
           \<and> corrected_of_run env ns w Ks K = Inr seq
           \<and> res_prime_count (last rs) = int (length (filter is_prime_pythonic seq))"
proof (cases "sweep env ns w [] Ks")
  case (Inl e)
  with assms show ?thesis unfolding sweep_append by simp
next
  case (Inr p)
  obtain rs1 v where p: "p = (rs1, v)" by (cases p)
  have s: "sweep env ns w [] Ks = Inr (rs1, v)" using Inr p by simp
  have "sweep env ns v rs1 [K] = Inr (rs, w'')"
    using assms unfolding sweep_append s by simp
  then obtain r v' where r: "run_K env v ns K = Inr (r, v')" and rs: "rs = rs1 @ [r]"
    by (cases "run_K env v ns K") auto
  from run_K_Inr[OF r] obtain seq where
    cv: "corrected_values env (rng v) ns K = Inr (seq, rng v')" and
    pc: "res_prime_count r = int (length (filter is_prime_pythonic seq))"
    by auto
  from cv obtain cf where "correction_fourier env (rng v) ns K = Inr (cf, rng v')"
    by (auto simp: corrected_values_def split: sum.splits)
  then obtain coeffs where u: "uniform (rng v) K = Inr (coeffs, rng v')"
    using correction_fourier_coefficients by blast
  have "coefficients_of_run env ns w Ks K = Inr coeffs"
    by (simp add: coefficients_of_run_def s u)
  moreover have "corrected_of_run env ns w Ks K = Inr seq"
    by (simp add: corrected_of_run_def s cv)
  moreover have "res_prime_count (last rs) = int (length (filter is_prime_pythonic seq))"
    using pc rs by simp
  ultimately show ?thesis by (intro exI[of _ coeffs] exI[of _ seq] conjI)
qed

lemma main_reference_clock:
  "main reference_env \<lparr>rng = (\<lambda>i. 0), clock = c\<rparr> 1 [1]
     = Inr [\<lparr>res_K = 1, res_prime_count = 1, res_prime_fraction = 1, res_elapsed = c 1 - c 0\<rparr>]"
  unfolding main_def upto_1_1 sweep.simps run_K_def time_time_def
  by (simp add: corrected_values_reference_1 np_round_0 py_int_0
      is_prime_pythonic_3_4 fdiv_def fsub_def)

text \<open>
  C3, as stated, fails. \<^verbatim>\<open>correction_fourier\<close> has no seed among its arguments: the
  coefficients come from the state of the generator of the process. And with that state fixed,
  two runs with the same \<^verbatim>\<open>N_MAX\<close> and the same \<open>K\<close> still differ in their results, which
  hold the measured time: over the index 1 with \<open>K = 1\<close> and the same generator, a clock that
  returns 0 and 1 gives the elapsed time 1, and a clock that returns 0 and 2 gives 2.
\<close>

theorem same_generator_different_results:
  "main reference_env \<lparr>rng = (\<lambda>i. 0), clock = (\<lambda>i. real i)\<rparr> 1 [1]
     = Inr [\<lparr>res_K = 1, res_prime_count = 1, res_prime_fraction = 1, res_elapsed = 1\<rparr>]
   \<and> main reference_env \<lparr>rng = (\<lambda>i. 0), clock = (\<lambda>i. 2 * real i)\<rparr> 1 [1]
     = Inr [\<lparr>res_K = 1, res_prime_count = 1, res_prime_fraction = 1, res_elapsed = 2\<rparr>]"
  by (simp add: main_reference_clock)

text \<open>
  C3, amended. The coefficients come from the state of the generator of the process, not from
  a seed given to the synthesizer. Two sweeps with the same \<^verbatim>\<open>N_MAX\<close> and the same values of
  \<open>K\<close> that start from the same state of the generator agree in every run, whatever their
  clocks return: the run draws the same coefficient vector and computes the same corrected
  values, and the records hold the same \<open>K\<close>, \<^verbatim>\<open>prime_count\<close> and \<^verbatim>\<open>prime_fraction\<close>. The
  elapsed times are those of the clocks.
\<close>

theorem same_generator_state_same_runs:
  assumes "rng w1 = rng w2"
  shows "coefficients_of_run env [1..N_MAX] w1 Ks K = coefficients_of_run env [1..N_MAX] w2 Ks K
       \<and> corrected_of_run env [1..N_MAX] w1 Ks K = corrected_of_run env [1..N_MAX] w2 Ks K
       \<and> map_sum id (map untimed) (main env w1 N_MAX K_VALUES)
           = map_sum id (map untimed) (main env w2 N_MAX K_VALUES)"
proof -
  have nil: "map untimed ([] :: experiment_result list) = map untimed []" by simp
  have runs: "coefficients_of_run env [1..N_MAX] w1 Ks K = coefficients_of_run env [1..N_MAX] w2 Ks K
       \<and> corrected_of_run env [1..N_MAX] w1 Ks K = corrected_of_run env [1..N_MAX] w2 Ks K"
    using sweep_same_rng[OF assms nil, of env "[1..N_MAX]" Ks]
  proof (elim disjE exE conjE)
    fix e assume "sweep env [1..N_MAX] w1 [] Ks = Inl e" "sweep env [1..N_MAX] w2 [] Ks = Inl e"
    then show ?thesis by (simp add: coefficients_of_run_def corrected_of_run_def)
  next
    fix a v1 b v2
    assume "sweep env [1..N_MAX] w1 [] Ks = Inr (a, v1)" "sweep env [1..N_MAX] w2 [] Ks = Inr (b, v2)"
      "rng v1 = rng v2"
    then show ?thesis by (simp add: coefficients_of_run_def corrected_of_run_def)
  qed
  have "map_sum id (map untimed) (main env w1 N_MAX K_VALUES)
           = map_sum id (map untimed) (main env w2 N_MAX K_VALUES)"
    using sweep_same_rng[OF assms nil, of env "[1..N_MAX]" K_VALUES]
  proof (elim disjE exE conjE)
    fix e assume "sweep env [1..N_MAX] w1 [] K_VALUES = Inl e" "sweep env [1..N_MAX] w2 [] K_VALUES = Inl e"
    then show ?thesis by (simp add: main_def)
  next
    fix a v1 b v2
    assume "sweep env [1..N_MAX] w1 [] K_VALUES = Inr (a, v1)"
      "sweep env [1..N_MAX] w2 [] K_VALUES = Inr (b, v2)" "map untimed a = map untimed b"
    then show ?thesis by (simp add: main_def)
  qed
  with runs show ?thesis by simp
qed

theorem same_generator_state_same_runs_witness:
  "rng \<lparr>rng = (\<lambda>i. if i = 0 then 1 else 0), clock = (\<lambda>i. real i)\<rparr>
     = rng \<lparr>rng = (\<lambda>i. if i = 0 then 1 else 0), clock = (\<lambda>i. 2 * real i)\<rparr>
   \<and> coefficients_of_run reference_env [1..1]
         \<lparr>rng = (\<lambda>i. if i = 0 then 1 else 0), clock = (\<lambda>i. real i)\<rparr> [1] 1
     = coefficients_of_run reference_env [1..1]
         \<lparr>rng = (\<lambda>i. if i = 0 then 1 else 0), clock = (\<lambda>i. 2 * real i)\<rparr> [1] 1
   \<and> corrected_of_run reference_env [1..1]
         \<lparr>rng = (\<lambda>i. if i = 0 then 1 else 0), clock = (\<lambda>i. real i)\<rparr> [1] 1
     = corrected_of_run reference_env [1..1]
         \<lparr>rng = (\<lambda>i. if i = 0 then 1 else 0), clock = (\<lambda>i. 2 * real i)\<rparr> [1] 1
   \<and> map_sum id (map untimed)
          (main reference_env \<lparr>rng = (\<lambda>i. if i = 0 then 1 else 0), clock = (\<lambda>i. real i)\<rparr> 1 [1, 1])
     = map_sum id (map untimed)
          (main reference_env \<lparr>rng = (\<lambda>i. if i = 0 then 1 else 0), clock = (\<lambda>i. 2 * real i)\<rparr> 1 [1, 1])"
proof -
  have h: "rng \<lparr>rng = (\<lambda>i. if i = 0 then 1 else 0), clock = (\<lambda>i. real i)\<rparr>
         = rng \<lparr>rng = (\<lambda>i. if i = 0 then 1 else 0), clock = (\<lambda>i. 2 * real i)\<rparr>"
    by simp
  from same_generator_state_same_runs[OF h, of reference_env 1 "[1]" 1 "[1, 1]"] h
  show ?thesis by blast
qed

end
